theory Spec2Isabelle
  imports Complex_Main "HOL-Library.Sublist" "HOL-Library.Multiset"
begin

section \<open>The paper store (data/database.py)\<close>

text \<open>
  One row of the \<^verbatim>\<open>papers\<close> table. The columns kept are the ones the agents read or
  write in the code verified below; the bibliographic columns that are only copied
  (authors, year, journal, source, document type, open-access URL, concepts, Semantic
  Scholar id, referenced works, query source, second-pass screening, cluster, creation
  time) are left out. A nullable column is an \<open>option\<close>; \<open>None\<close> is SQL NULL and Python
  \<^verbatim>\<open>None\<close>. The same record stands for the normalised dictionaries the catalogue clients
  return (\<^verbatim>\<open>_parse_work\<close>, \<^verbatim>\<open>_parse_paper\<close>): there \<open>found_via = None\<close> means that the key is
  absent. JSON numbers and Python floats are exact rationals. Strings are \<open>string\<close>, and
  the case conversions and character classes below are the ASCII ones.
\<close>

record paper =
  paper_id :: string
  doi :: "string option"
  title :: string
  abstract :: "string option"
  citation_count :: "int option"
  openalex_id :: "string option"
  found_via :: "string option"
  screening_pass1 :: "string option"
  screening_pass1_reason :: "string option"
  screening_pass1_confidence :: "rat option"
  human_decision :: "string option"
  quality_score :: "rat option"
  quality_notes :: "string option"
  quality_flag :: "string option"
  relevance_score :: "rat option"
  final_status :: "string option"

type_synonym store = "paper list"

text \<open>Python truthiness of an optional string: \<^verbatim>\<open>None\<close> and \<^verbatim>\<open>""\<close> are falsy.\<close>

fun truthy :: "string option \<Rightarrow> bool" where
  "truthy None = False"
| "truthy (Some s) = (s \<noteq> [])"

definition known_id :: "store \<Rightarrow> string \<Rightarrow> bool" where
  "known_id s i = (\<exists>r \<in> set s. paper_id r = i)"

text \<open>
  The row that the INSERT of \<^verbatim>\<open>upsert_papers\<close> creates: the listed columns come from the
  dictionary, \<^verbatim>\<open>found_via\<close> defaults to \<^verbatim>\<open>'search'\<close>, every pipeline column is NULL.
\<close>

definition new_row :: "paper \<Rightarrow> paper" where
  "new_row p = p\<lparr>
     found_via := Some (case found_via p of None \<Rightarrow> ''search'' | Some v \<Rightarrow> v),
     screening_pass1 := None, screening_pass1_reason := None,
     screening_pass1_confidence := None, human_decision := None,
     quality_score := None, quality_notes := None, quality_flag := None,
     relevance_score := None, final_status := None\<rparr>"

text \<open>
  \<^verbatim>\<open>upsert_papers\<close>: for each paper, SELECT by id; an existing id is skipped, otherwise the
  row is inserted and counted. The result is the new table and the count.
\<close>

fun upsert_loop :: "store \<Rightarrow> paper list \<Rightarrow> nat \<Rightarrow> store \<times> nat" where
  "upsert_loop s [] inserted = (s, inserted)"
| "upsert_loop s (p # ps) inserted =
     (if known_id s (paper_id p) then upsert_loop s ps inserted
      else upsert_loop (s @ [new_row p]) ps (inserted + 1))"

definition upsert_papers :: "store \<Rightarrow> paper list \<Rightarrow> store \<times> nat" where
  "upsert_papers s papers = (if papers = [] then (s, 0) else upsert_loop s papers 0)"

text \<open>A normalised dictionary as the catalogue clients build it, used for examples.\<close>

definition parsed :: "string \<Rightarrow> string option \<Rightarrow> string \<Rightarrow> string option \<Rightarrow> paper" where
  "parsed i d t oa = \<lparr>paper_id = i, doi = d, title = t, abstract = Some [],
     citation_count = Some 0, openalex_id = oa, found_via = None,
     screening_pass1 = None, screening_pass1_reason = None,
     screening_pass1_confidence = None, human_decision = None,
     quality_score = None, quality_notes = None, quality_flag = None,
     relevance_score = None, final_status = None\<rparr>"

text \<open>\<^verbatim>\<open>update_paper\<close>: UPDATE ... WHERE id = ?; the keyword arguments are a row update.\<close>

definition update_paper :: "store \<Rightarrow> string \<Rightarrow> (paper \<Rightarrow> paper) \<Rightarrow> store" where
  "update_paper s i f = map (\<lambda>r. if paper_id r = i then f r else r) s"

section \<open>Storage insertion is idempotent\<close>

lemma paper_id_new_row: "paper_id (new_row p) = paper_id p"
  by (simp add: new_row_def)

lemma known_id_append: "known_id (s @ t) i \<longleftrightarrow> known_id s i \<or> known_id t i"
  by (auto simp: known_id_def)

lemma known_id_single: "known_id [r] i \<longleftrightarrow> paper_id r = i"
  by (simp add: known_id_def)

lemma upsert_loop_extends:
  "\<exists>added. fst (upsert_loop s ps n) = s @ added \<and> snd (upsert_loop s ps n) = n + length added"
proof (induction ps arbitrary: s n)
  case Nil
  show ?case by simp
next
  case (Cons p ps)
  show ?case
  proof (cases "known_id s (paper_id p)")
    case True
    with Cons.IH [of s n] show ?thesis by simp
  next
    case False
    from Cons.IH [of "s @ [new_row p]" "n + 1"] obtain added where
      "fst (upsert_loop (s @ [new_row p]) ps (n + 1)) = (s @ [new_row p]) @ added"
      "snd (upsert_loop (s @ [new_row p]) ps (n + 1)) = n + 1 + length added"
      by blast
    with False have
      "fst (upsert_loop s (p # ps) n) = s @ (new_row p # added) \<and>
       snd (upsert_loop s (p # ps) n) = n + length (new_row p # added)"
      by simp
    then show ?thesis by blast
  qed
qed

lemma upsert_loop_known:
  "known_id s i \<or> i \<in> paper_id ` set ps \<Longrightarrow> known_id (fst (upsert_loop s ps n)) i"
proof (induction ps arbitrary: s n)
  case Nil
  then show ?case by simp
next
  case (Cons p ps)
  show ?case
  proof (cases "known_id s (paper_id p)")
    case True
    with Cons.prems have "known_id s i \<or> i \<in> paper_id ` set ps" by auto
    with True Cons.IH [of s n] show ?thesis by simp
  next
    case False
    from Cons.prems have "known_id (s @ [new_row p]) i \<or> i \<in> paper_id ` set ps"
      by (auto simp: known_id_append known_id_single paper_id_new_row)
    with False Cons.IH [of "s @ [new_row p]" "n + 1"] show ?thesis by simp
  qed
qed

lemma upsert_loop_all_known:
  "\<forall>p \<in> set ps. known_id s (paper_id p) \<Longrightarrow> upsert_loop s ps n = (s, n)"
  by (induction ps arbitrary: s n) auto

lemma upsert_papers_extends:
  "\<exists>added. fst (upsert_papers s ps) = s @ added \<and> snd (upsert_papers s ps) = length added"
proof (cases "ps = []")
  case True
  then show ?thesis by (simp add: upsert_papers_def)
next
  case False
  with upsert_loop_extends [of s ps 0] show ?thesis by (simp add: upsert_papers_def)
qed

lemma upsert_papers_again:
  "upsert_papers (fst (upsert_papers s ps)) ps = (fst (upsert_papers s ps), 0)"
proof (cases "ps = []")
  case True
  then show ?thesis by (simp add: upsert_papers_def)
next
  case False
  have "\<forall>p \<in> set ps. known_id (fst (upsert_loop s ps 0)) (paper_id p)"
    by (simp add: upsert_loop_known)
  then have "upsert_loop (fst (upsert_loop s ps 0)) ps 0 = (fst (upsert_loop s ps 0), 0)"
    by (rule upsert_loop_all_known)
  with False show ?thesis by (simp add: upsert_papers_def)
qed

lemma upsert_papers_all_known:
  "\<forall>p \<in> set ps. known_id s (paper_id p) \<Longrightarrow> upsert_papers s ps = (s, 0)"
  by (simp add: upsert_papers_def upsert_loop_all_known)

text \<open>
  C5. Inserting a list of documents a second time changes nothing and counts nothing, so
  the stored corpus and its size are those of a single insertion. An insertion never
  touches the rows already stored: the new table is the old one followed by the inserted
  rows, and the returned count is the number of those rows. When every id of the list is
  already stored the call is a no-op that returns 0.
\<close>

theorem upsert_papers_idempotent:
  "upsert_papers (fst (upsert_papers s ps)) ps = (fst (upsert_papers s ps), 0)
   \<and> length (fst (upsert_papers (fst (upsert_papers s ps)) ps)) = length (fst (upsert_papers s ps))
   \<and> take (length s) (fst (upsert_papers s ps)) = s
   \<and> length (fst (upsert_papers s ps)) = length s + snd (upsert_papers s ps)
   \<and> ((\<forall>p \<in> set ps. known_id s (paper_id p)) \<longrightarrow> upsert_papers s ps = (s, 0))"
proof -
  obtain added where a: "fst (upsert_papers s ps) = s @ added"
    "snd (upsert_papers s ps) = length added"
    using upsert_papers_extends by blast
  have "upsert_papers (fst (upsert_papers s ps)) ps = (fst (upsert_papers s ps), 0)"
    by (rule upsert_papers_again)
  moreover from a have "take (length s) (fst (upsert_papers s ps)) = s" by simp
  moreover from a have "length (fst (upsert_papers s ps)) = length s + snd (upsert_papers s ps)"
    by simp
  ultimately show ?thesis by (simp add: upsert_papers_all_known)
qed

theorem upsert_papers_idempotent_witness:
  "known_id [new_row (parsed ''W1'' None ''A title'' None)]
      (paper_id (parsed ''W1'' None ''A title'' None))
   \<and> upsert_papers [new_row (parsed ''W1'' None ''A title'' None)]
        [parsed ''W1'' None ''A title'' None]
      = ([new_row (parsed ''W1'' None ''A title'' None)], 0)"
  using upsert_papers_idempotent
    [of "[new_row (parsed ''W1'' None ''A title'' None)]" "[parsed ''W1'' None ''A title'' None]"]
  by (simp add: known_id_def paper_id_new_row)

section \<open>Deduplication (agents/search_agent.py)\<close>

text \<open>
  \<^verbatim>\<open>str.lower\<close>, \<^verbatim>\<open>str.strip\<close> and the character class \<^verbatim>\<open>[^a-z0-9]\<close> on ASCII text. An upper-case
  letter becomes lower-case by setting bit 5 of its code.
\<close>

definition lower_char :: "char \<Rightarrow> char" where
  "lower_char c = (let n = (of_char c :: nat) in
     if 65 \<le> n \<and> n \<le> 90
     then Char (digit0 c) (digit1 c) (digit2 c) (digit3 c) (digit4 c) True (digit6 c) (digit7 c)
     else c)"

definition lower :: "string \<Rightarrow> string" where
  "lower s = map lower_char s"

definition is_space :: "char \<Rightarrow> bool" where
  "is_space c = (let n = (of_char c :: nat) in (9 \<le> n \<and> n \<le> 13) \<or> (28 \<le> n \<and> n \<le> 32))"

definition strip :: "string \<Rightarrow> string" where
  "strip s = rev (dropWhile is_space (rev (dropWhile is_space s)))"

definition key_char :: "char \<Rightarrow> bool" where
  "key_char c = (let n = (of_char c :: nat) in (97 \<le> n \<and> n \<le> 122) \<or> (48 \<le> n \<and> n \<le> 57))"

text \<open>\<^verbatim>\<open>_title_key\<close>: \<^verbatim>\<open>re.sub(r"[^a-z0-9]", "", title.lower())[:60]\<close>.\<close>

definition title_key :: "string \<Rightarrow> string" where
  "title_key t = take 60 (filter key_char (lower t))"

text \<open>The DOI as \<^verbatim>\<open>_deduplicate\<close> compares it: \<^verbatim>\<open>(p.get("doi") or "").lower().strip()\<close>.\<close>

definition doi_key :: "paper \<Rightarrow> string" where
  "doi_key p = strip (lower (case doi p of None \<Rightarrow> [] | Some d \<Rightarrow> d))"

text \<open>
  \<^verbatim>\<open>_deduplicate\<close>. The two seen-sets are mutated in place by the source; here the updated
  sets are returned with the list of kept documents.
\<close>

fun deduplicate :: "paper list \<Rightarrow> string set \<Rightarrow> string set \<Rightarrow> paper list \<times> string set \<times> string set" where
  "deduplicate [] seen_dois seen_titles = ([], seen_dois, seen_titles)"
| "deduplicate (p # ps) seen_dois seen_titles =
     (if doi_key p \<noteq> [] \<and> doi_key p \<in> seen_dois then deduplicate ps seen_dois seen_titles
      else if title_key (title p) \<in> seen_titles then deduplicate ps seen_dois seen_titles
      else (case deduplicate ps (if doi_key p \<noteq> [] then insert (doi_key p) seen_dois else seen_dois)
                                (insert (title_key (title p)) seen_titles) of
              (unique, sd, st) \<Rightarrow> (p # unique, sd, st)))"


text \<open>The keys that a list of kept documents adds to the seen-sets, and the drop test.\<close>

definition kept_dois :: "paper list \<Rightarrow> string set" where
  "kept_dois u = set (filter (\<lambda>d. d \<noteq> []) (map doi_key u))"

definition kept_titles :: "paper list \<Rightarrow> string set" where
  "kept_titles u = set (map (\<lambda>p. title_key (title p)) u)"

definition dropped :: "paper \<Rightarrow> string set \<Rightarrow> string set \<Rightarrow> bool" where
  "dropped p seen_dois seen_titles \<longleftrightarrow>
     (doi_key p \<noteq> [] \<and> doi_key p \<in> seen_dois) \<or> title_key (title p) \<in> seen_titles"

lemma deduplicate_Cons:
  "deduplicate (p # ps) sd st =
     (if dropped p sd st then deduplicate ps sd st
      else (case deduplicate ps (if doi_key p \<noteq> [] then insert (doi_key p) sd else sd)
                                (insert (title_key (title p)) st) of
              (unique, sd', st') \<Rightarrow> (p # unique, sd', st')))"
  by (simp add: dropped_def)

declare deduplicate.simps(2) [simp del]

lemma deduplicate_append:
  "deduplicate (xs @ ys) sd st =
     (case deduplicate xs sd st of (u1, sd1, st1) \<Rightarrow>
        (case deduplicate ys sd1 st1 of (u2, sd2, st2) \<Rightarrow> (u1 @ u2, sd2, st2)))"
proof (induction xs arbitrary: sd st)
  case Nil
  show ?case by (simp split: prod.splits)
next
  case (Cons p xs)
  show ?case
    by (cases "dropped p sd st") (simp_all add: deduplicate_Cons Cons.IH split: prod.splits)
qed

lemma deduplicate_append_fst:
  "fst (deduplicate (xs @ ys) sd st) =
     fst (deduplicate xs sd st) @
     fst (deduplicate ys (fst (snd (deduplicate xs sd st))) (snd (snd (deduplicate xs sd st))))"
  by (simp add: deduplicate_append split: prod.splits)

lemma deduplicate_seen:
  "deduplicate ps sd st = (u, sd', st') \<Longrightarrow>
     sd' = sd \<union> kept_dois u \<and> st' = st \<union> kept_titles u"
proof (induction ps arbitrary: sd st u sd' st')
  case Nil
  then show ?case by (auto simp: kept_dois_def kept_titles_def)
next
  case (Cons p ps)
  show ?case
  proof (cases "dropped p sd st")
    case True
    with Cons.prems have "deduplicate ps sd st = (u, sd', st')"
      by (simp add: deduplicate_Cons)
    then show ?thesis by (rule Cons.IH)
  next
    case False
    obtain u0 sd0 st0 where r:
      "deduplicate ps (if doi_key p \<noteq> [] then insert (doi_key p) sd else sd)
         (insert (title_key (title p)) st) = (u0, sd0, st0)"
      by (metis prod_cases3)
    from Cons.IH [OF r] have
      "sd0 = (if doi_key p \<noteq> [] then insert (doi_key p) sd else sd) \<union> kept_dois u0"
      "st0 = insert (title_key (title p)) st \<union> kept_titles u0"
      by simp_all
    moreover from False r Cons.prems have "u = p # u0" "sd' = sd0" "st' = st0"
      by (simp_all add: deduplicate_Cons)
    ultimately show ?thesis
      by (auto simp: kept_dois_def kept_titles_def)
  qed
qed

lemma deduplicate_fresh:
  "deduplicate ps sd st = (u, sd', st') \<Longrightarrow>
     kept_dois u \<inter> sd = {} \<and> kept_titles u \<inter> st = {}
     \<and> distinct (filter (\<lambda>d. d \<noteq> []) (map doi_key u))
     \<and> distinct (map (\<lambda>p. title_key (title p)) u)"
proof (induction ps arbitrary: sd st u sd' st')
  case Nil
  then show ?case by (auto simp: kept_dois_def kept_titles_def)
next
  case (Cons p ps)
  show ?case
  proof (cases "dropped p sd st")
    case True
    with Cons.prems have "deduplicate ps sd st = (u, sd', st')"
      by (simp add: deduplicate_Cons)
    then show ?thesis by (rule Cons.IH)
  next
    case False
    obtain u0 sd0 st0 where r:
      "deduplicate ps (if doi_key p \<noteq> [] then insert (doi_key p) sd else sd)
         (insert (title_key (title p)) st) = (u0, sd0, st0)"
      by (metis prod_cases3)
    from Cons.IH [OF r] have ih:
      "kept_dois u0 \<inter> (if doi_key p \<noteq> [] then insert (doi_key p) sd else sd) = {}"
      "kept_titles u0 \<inter> insert (title_key (title p)) st = {}"
      "distinct (filter (\<lambda>d. d \<noteq> []) (map doi_key u0))"
      "distinct (map (\<lambda>p. title_key (title p)) u0)"
      by simp_all
    from False r Cons.prems have u: "u = p # u0"
      by (simp add: deduplicate_Cons)
    from False have np: "doi_key p \<noteq> [] \<Longrightarrow> doi_key p \<notin> sd" "title_key (title p) \<notin> st"
      by (auto simp: dropped_def)
    from ih np show ?thesis unfolding u
      by (auto simp: kept_dois_def kept_titles_def)
  qed
qed


lemma deduplicate_step:
  assumes "deduplicate pre sd st = (u1, sd1, st1)"
  shows "fst (deduplicate (pre @ p # post) sd st) =
     (if dropped p sd1 st1 then u1 @ fst (deduplicate post sd1 st1)
      else u1 @ p # fst (deduplicate post
             (if doi_key p \<noteq> [] then insert (doi_key p) sd1 else sd1)
             (insert (title_key (title p)) st1)))"
  using assms
  by (simp add: deduplicate_append deduplicate_Cons split: prod.splits)

lemma deduplicate_later_doi:
  "doi_key p \<noteq> [] \<Longrightarrow> doi_key p \<notin> kept_dois (fst (deduplicate post (insert (doi_key p) sd) st))"
proof -
  obtain u sd' st' where r: "deduplicate post (insert (doi_key p) sd) st = (u, sd', st')"
    by (metis prod_cases3)
  from deduplicate_fresh [OF r] have "kept_dois u \<inter> insert (doi_key p) sd = {}" by simp
  with r show ?thesis by auto
qed

text \<open>ASCII letters and digits.\<close>

definition is_alnum :: "char \<Rightarrow> bool" where
  "is_alnum c = (let n = (of_char c :: nat) in
     (48 \<le> n \<and> n \<le> 57) \<or> (65 \<le> n \<and> n \<le> 90) \<or> (97 \<le> n \<and> n \<le> 122))"

lemma of_char_lower_char:
  "of_char (lower_char c) =
     (if 65 \<le> (of_char c :: nat) \<and> (of_char c :: nat) \<le> 90 then of_char c + 32 else (of_char c :: nat))"
  by (cases c) (auto simp: lower_char_def Let_def)

lemma key_char_lower_char: "key_char (lower_char c) \<longleftrightarrow> is_alnum c"
  by (auto simp: key_char_def is_alnum_def Let_def of_char_lower_char)

lemma title_key_filter: "title_key t = take 60 (map lower_char (filter is_alnum t))"
  by (simp add: title_key_def lower_def filter_map comp_def key_char_lower_char)

lemma title_key_no_alnum: "\<forall>c \<in> set t. \<not> is_alnum c \<Longrightarrow> title_key t = []"
  by (simp add: title_key_filter filter_empty_conv [THEN iffD2])

lemma distinct_map_filter_le1:
  "distinct (map f xs) \<Longrightarrow> length (filter (\<lambda>x. f x = k) xs) \<le> 1"
proof (induction xs)
  case Nil
  show ?case by simp
next
  case (Cons x xs)
  show ?case
  proof (cases "f x = k")
    case True
    from Cons.prems have "f x \<notin> f ` set xs" by simp
    with True have "\<forall>y \<in> set xs. f y \<noteq> k" by (metis imageI)
    then have "filter (\<lambda>x. f x = k) xs = []" by (simp add: filter_empty_conv)
    with True show ?thesis by simp
  next
    case False
    with Cons show ?thesis by simp
  qed
qed

lemma deduplicate_one_per_title:
  "length (filter (\<lambda>p. title_key (title p) = k) (fst (deduplicate ps sd st))) \<le> 1"
proof -
  obtain u sd' st' where r: "deduplicate ps sd st = (u, sd', st')"
    by (metis prod_cases3)
  from deduplicate_fresh [OF r] have "distinct (map (\<lambda>p. title_key (title p)) u)" by simp
  then have "length (filter (\<lambda>p. title_key (title p) = k) u) \<le> 1"
    by (rule distinct_map_filter_le1)
  with r show ?thesis by simp
qed

text \<open>
  \<^verbatim>\<open>SearchAgent.run\<close>: the OpenAlex queries, then the Semantic Scholar queries, share the two
  seen-sets, which start empty. Each query is given by what its search call returned:
  the retrieved list, or the exception it raised, which the loop logs and skips.
\<close>

datatype exn = Exn string

fun search_loop ::
  "(exn + paper list) list \<Rightarrow> store \<times> string set \<times> string set \<times> nat
     \<Rightarrow> store \<times> string set \<times> string set \<times> nat" where
  "search_loop [] acc = acc"
| "search_loop (Inl e # qs) acc = search_loop qs acc"
| "search_loop (Inr papers # qs) (s, seen_dois, seen_titles, total_inserted) =
     (case deduplicate papers seen_dois seen_titles of (unique, sd, st) \<Rightarrow>
        (case upsert_papers s unique of (s', n) \<Rightarrow>
           search_loop qs (s', sd, st, total_inserted + n)))"

definition search_run :: "store \<Rightarrow> (exn + paper list) list \<Rightarrow> (exn + paper list) list \<Rightarrow> store \<times> nat" where
  "search_run s openalex_results semantic_scholar_results =
     (case search_loop (openalex_results @ semantic_scholar_results) (s, {}, {}, 0) of
        (s', sd, st, total_inserted) \<Rightarrow> (s', total_inserted))"

text \<open>All documents a stage retrieved, in the order the stage saw them.\<close>

fun retrieved :: "(exn + paper list) list \<Rightarrow> paper list" where
  "retrieved [] = []"
| "retrieved (Inl e # qs) = retrieved qs"
| "retrieved (Inr papers # qs) = papers @ retrieved qs"

lemma upsert_loop_subseq:
  "\<exists>added. fst (upsert_loop s ps n) = s @ added \<and> subseq added (map new_row ps)"
proof (induction ps arbitrary: s n)
  case Nil
  show ?case by simp
next
  case (Cons p ps)
  show ?case
  proof (cases "known_id s (paper_id p)")
    case True
    from Cons.IH [of s n] obtain added where
      "fst (upsert_loop s ps n) = s @ added" "subseq added (map new_row ps)" by blast
    with True have "fst (upsert_loop s (p # ps) n) = s @ added \<and> subseq added (map new_row (p # ps))"
      by auto
    then show ?thesis by blast
  next
    case False
    from Cons.IH [of "s @ [new_row p]" "n + 1"] obtain added where
      "fst (upsert_loop (s @ [new_row p]) ps (n + 1)) = (s @ [new_row p]) @ added"
      "subseq added (map new_row ps)" by blast
    with False have "fst (upsert_loop s (p # ps) n) = s @ (new_row p # added)
        \<and> subseq (new_row p # added) (map new_row (p # ps))"
      by simp
    then show ?thesis by blast
  qed
qed

lemma upsert_papers_subseq:
  "\<exists>added. fst (upsert_papers s ps) = s @ added \<and> subseq added (map new_row ps)"
proof (cases "ps = []")
  case True
  then show ?thesis by (simp add: upsert_papers_def)
next
  case False
  with upsert_loop_subseq [of s ps 0] show ?thesis by (simp add: upsert_papers_def)
qed

lemma search_loop_subseq:
  "\<exists>added. fst (search_loop qs (s, sd, st, n)) = s @ added
      \<and> subseq added (map new_row (fst (deduplicate (retrieved qs) sd st)))"
proof (induction qs arbitrary: s sd st n)
  case Nil
  show ?case by simp
next
  case (Cons q qs)
  show ?case
  proof (cases q)
    case (Inl e)
    with Cons.IH [of s sd st n] show ?thesis by simp
  next
    case (Inr papers)
    obtain u sd1 st1 where d: "deduplicate papers sd st = (u, sd1, st1)"
      by (metis prod_cases3)
    obtain s1 k where up: "upsert_papers s u = (s1, k)"
      by (cases "upsert_papers s u")
    from upsert_papers_subseq [of s u] up obtain a1 where
      a1: "s1 = s @ a1" "subseq a1 (map new_row u)" by auto
    from Cons.IH [of s1 sd1 st1 "n + k"] obtain a2 where
      a2: "fst (search_loop qs (s1, sd1, st1, n + k)) = s1 @ a2"
        "subseq a2 (map new_row (fst (deduplicate (retrieved qs) sd1 st1)))" by blast
    from a1 a2 have "subseq (a1 @ a2)
        (map new_row u @ map new_row (fst (deduplicate (retrieved qs) sd1 st1)))"
      by (simp add: list_emb_append_mono)
    with d have "subseq (a1 @ a2) (map new_row (fst (deduplicate (retrieved (q # qs)) sd st)))"
      by (simp add: Inr deduplicate_append_fst)
    moreover from d up a1 a2 have "fst (search_loop (q # qs) (s, sd, st, n)) = s @ (a1 @ a2)"
      by (simp add: Inr)
    ultimately show ?thesis by blast
  qed
qed

lemma title_new_row: "title (new_row p) = title p"
  by (simp add: new_row_def)

lemma fst_search_run:
  "fst (search_run s oa ss) = fst (search_loop (oa @ ss) (s, {}, {}, 0))"
  by (cases "search_loop (oa @ ss) (s, {}, {}, 0)") (simp add: search_run_def)

lemma search_run_one_per_title:
  "\<exists>added. fst (search_run s oa ss) = s @ added
     \<and> length (filter (\<lambda>r. title_key (title r) = k) added) \<le> 1"
proof -
  from search_loop_subseq [of "oa @ ss" s "{}" "{}" 0] obtain added where
    a: "fst (search_loop (oa @ ss) (s, {}, {}, 0)) = s @ added"
       "subseq added (map new_row (fst (deduplicate (retrieved (oa @ ss)) {} {})))" by blast
  let ?P = "\<lambda>r. title_key (title r) = k"
  from a(2) have "subseq (filter ?P added)
      (filter ?P (map new_row (fst (deduplicate (retrieved (oa @ ss)) {} {}))))"
    by (rule subseq_filter)
  then have "length (filter ?P added)
      \<le> length (filter ?P (map new_row (fst (deduplicate (retrieved (oa @ ss)) {} {}))))"
    by (rule list_emb_length)
  also have "\<dots> = length (filter (\<lambda>p. title_key (title p) = k)
       (fst (deduplicate (retrieved (oa @ ss)) {} {})))"
    by (simp add: filter_map comp_def title_new_row)
  also have "\<dots> \<le> 1" by (rule deduplicate_one_per_title)
  finally have "length (filter ?P added) \<le> 1" .
  moreover from a(1) have "fst (search_run s oa ss) = s @ added"
    by (simp add: fst_search_run)
  ultimately show ?thesis by blast
qed


lemma title_key_empty_iff: "title_key t = [] \<longleftrightarrow> (\<forall>c \<in> set t. \<not> is_alnum c)"
  by (auto simp: title_key_filter filter_empty_conv)

text \<open>
  C4 (as amended). Let \<open>sd1\<close> and \<open>st1\<close> be the seen-sets when a document \<open>p\<close> is reached:
  the sets passed in, extended by the keys of the documents kept before \<open>p\<close>. Then \<open>p\<close> is
  dropped if and only if its DOI key (lower-cased, stripped of surrounding white space) is
  non-empty and in \<open>sd1\<close>, or its title key is in \<open>st1\<close>; the documents after \<open>p\<close> are treated
  with \<open>sd1\<close> and \<open>st1\<close> unchanged when \<open>p\<close> is dropped, and with the title key of \<open>p\<close> and its
  DOI key, when non-empty, added when \<open>p\<close> is kept. The kept documents have pairwise
  distinct non-empty DOI keys, so at most one document per DOI is kept; and a kept
  document with a DOI is the only kept one with that DOI, before it and after it. It is
  the first one with that DOI whose title key was unseen, not always the first one
  encountered. By \<open>deduplicate_append\<close> the same holds across the result lists of several
  queries, which share the seen-sets.
\<close>

theorem deduplicate_first_unseen_kept:
  "deduplicate pre sd st = (u1, sd1, st1) \<Longrightarrow>
     sd1 = sd \<union> kept_dois u1 \<and> st1 = st \<union> kept_titles u1
     \<and> fst (deduplicate (pre @ p # post) sd st) =
         (if dropped p sd1 st1 then u1 @ fst (deduplicate post sd1 st1)
          else u1 @ p # fst (deduplicate post
                 (if doi_key p \<noteq> [] then insert (doi_key p) sd1 else sd1)
                 (insert (title_key (title p)) st1)))
     \<and> distinct (filter (\<lambda>d. d \<noteq> []) (map doi_key (fst (deduplicate (pre @ p # post) sd st))))
     \<and> (\<not> dropped p sd1 st1 \<and> doi_key p \<noteq> [] \<longrightarrow>
          doi_key p \<notin> kept_dois u1
          \<and> doi_key p \<notin> kept_dois (fst (deduplicate post (insert (doi_key p) sd1)
                                          (insert (title_key (title p)) st1))))"
proof -
  assume pre: "deduplicate pre sd st = (u1, sd1, st1)"
  from deduplicate_seen [OF pre] have seen: "sd1 = sd \<union> kept_dois u1" "st1 = st \<union> kept_titles u1"
    by simp_all
  have step: "fst (deduplicate (pre @ p # post) sd st) =
         (if dropped p sd1 st1 then u1 @ fst (deduplicate post sd1 st1)
          else u1 @ p # fst (deduplicate post
                 (if doi_key p \<noteq> [] then insert (doi_key p) sd1 else sd1)
                 (insert (title_key (title p)) st1)))"
    by (rule deduplicate_step [OF pre])
  obtain u sd' st' where r: "deduplicate (pre @ p # post) sd st = (u, sd', st')"
    by (metis prod_cases3)
  from deduplicate_fresh [OF r] r
  have dist: "distinct (filter (\<lambda>d. d \<noteq> []) (map doi_key (fst (deduplicate (pre @ p # post) sd st))))"
    by simp
  have first: "doi_key p \<notin> kept_dois u1" if "\<not> dropped p sd1 st1" "doi_key p \<noteq> []"
    using that seen by (auto simp: dropped_def)
  have later: "doi_key p \<notin> kept_dois (fst (deduplicate post (insert (doi_key p) sd1)
                                          (insert (title_key (title p)) st1)))"
    if "doi_key p \<noteq> []"
    using that by (rule deduplicate_later_doi)
  from seen step dist first later show ?thesis by blast
qed

lemmas string_evals = title_key_def doi_key_def lower_def lower_char_def key_char_def
  strip_def is_space_def dropped_def parsed_def

theorem deduplicate_first_unseen_kept_witness:
  "deduplicate [parsed ''W1'' None ''Deep Learning'' None] {} {}
     = ([parsed ''W1'' None ''Deep Learning'' None], {}, {''deeplearning''})
   \<and> \<not> dropped (parsed ''10.1/x'' (Some ''10.1/x'') ''Graph kernels'' None) {} {''deeplearning''}
   \<and> doi_key (parsed ''10.1/x'' (Some ''10.1/x'') ''Graph kernels'' None) \<noteq> []
   \<and> fst (deduplicate ([parsed ''W1'' None ''Deep Learning'' None] @
              parsed ''10.1/x'' (Some ''10.1/x'') ''Graph kernels'' None #
              [parsed ''10.1/X'' (Some '' 10.1/X'') ''Kernels on graphs'' None]) {} {})
       = [parsed ''W1'' None ''Deep Learning'' None,
          parsed ''10.1/x'' (Some ''10.1/x'') ''Graph kernels'' None]
   \<and> doi_key (parsed ''10.1/x'' (Some ''10.1/x'') ''Graph kernels'' None) \<notin>
       kept_dois (fst (deduplicate [parsed ''10.1/X'' (Some '' 10.1/X'') ''Kernels on graphs'' None]
          (insert (doi_key (parsed ''10.1/x'' (Some ''10.1/x'') ''Graph kernels'' None)) {})
          (insert (title_key (title (parsed ''10.1/x'' (Some ''10.1/x'') ''Graph kernels'' None)))
             {''deeplearning''})))"
proof -
  have h: "deduplicate [parsed ''W1'' None ''Deep Learning'' None] {} {}
     = ([parsed ''W1'' None ''Deep Learning'' None], {}, {''deeplearning''})"
    by (simp add: deduplicate_Cons string_evals)
  have d: "\<not> dropped (parsed ''10.1/x'' (Some ''10.1/x'') ''Graph kernels'' None) {} {''deeplearning''}"
    "doi_key (parsed ''10.1/x'' (Some ''10.1/x'') ''Graph kernels'' None) \<noteq> []"
    by (simp_all add: string_evals)
  have e: "fst (deduplicate [parsed ''10.1/X'' (Some '' 10.1/X'') ''Kernels on graphs'' None]
      {''10.1/x''} {''graphkernels'', ''deeplearning''}) = []"
    by (simp add: deduplicate_Cons string_evals)
  have k: "doi_key (parsed ''10.1/x'' (Some ''10.1/x'') ''Graph kernels'' None) = ''10.1/x''"
    "title_key (title (parsed ''10.1/x'' (Some ''10.1/x'') ''Graph kernels'' None)) = ''graphkernels''"
    by (simp_all add: string_evals)
  from deduplicate_first_unseen_kept [OF h,
      of "parsed ''10.1/x'' (Some ''10.1/x'') ''Graph kernels'' None"
         "[parsed ''10.1/X'' (Some '' 10.1/X'') ''Kernels on graphs'' None]"] h d e k
  show ?thesis by simp
qed

text \<open>
  C4 as stated fails: of two documents sharing a DOI the first encountered is dropped,
  because its title key was already seen, and the second one is kept.
\<close>

theorem deduplicate_first_with_doi_dropped:
  "doi_key (parsed ''10.1/x'' (Some ''10.1/x'') ''Deep learning.'' None)
     = doi_key (parsed ''10.1/x'' (Some ''10.1/x'') ''Representation learning'' None)
   \<and> doi_key (parsed ''10.1/x'' (Some ''10.1/x'') ''Deep learning.'' None) \<noteq> []
   \<and> fst (deduplicate [parsed ''W1'' None ''Deep Learning'' None,
                        parsed ''10.1/x'' (Some ''10.1/x'') ''Deep learning.'' None,
                        parsed ''10.1/x'' (Some ''10.1/x'') ''Representation learning'' None] {} {})
      = [parsed ''W1'' None ''Deep Learning'' None,
         parsed ''10.1/x'' (Some ''10.1/x'') ''Representation learning'' None]"
  by (simp add: deduplicate_Cons string_evals)

text \<open>
  C10. A document whose title key is in the title seen-set is dropped whatever its DOI
  is. A title without ASCII letters and digits has the empty title key. So at most one
  document with such a title survives one call of the deduplication, and at most one
  row with such a title is inserted by a whole search stage.
\<close>

theorem title_key_alone_drops:
  "(title_key (title p) \<in> st \<longrightarrow> deduplicate (p # ps) sd st = deduplicate ps sd st)
   \<and> ((\<forall>c \<in> set t. \<not> is_alnum c) \<longrightarrow> title_key t = [])
   \<and> length (filter (\<lambda>p. \<forall>c \<in> set (title p). \<not> is_alnum c) (fst (deduplicate ps sd st))) \<le> 1
   \<and> (\<exists>added. fst (search_run s oa ss) = s @ added
        \<and> length (filter (\<lambda>r. \<forall>c \<in> set (title r). \<not> is_alnum c) added) \<le> 1)"
proof -
  have a: "title_key (title p) \<in> st \<longrightarrow> deduplicate (p # ps) sd st = deduplicate ps sd st"
    by (simp add: deduplicate_Cons dropped_def)
  have b: "(\<forall>c \<in> set t. \<not> is_alnum c) \<longrightarrow> title_key t = []"
    by (simp add: title_key_empty_iff)
  have c: "length (filter (\<lambda>p. \<forall>c \<in> set (title p). \<not> is_alnum c) (fst (deduplicate ps sd st))) \<le> 1"
    using deduplicate_one_per_title [of "[]" ps sd st] by (simp add: title_key_empty_iff)
  have d: "\<exists>added. fst (search_run s oa ss) = s @ added
        \<and> length (filter (\<lambda>r. \<forall>c \<in> set (title r). \<not> is_alnum c) added) \<le> 1"
    using search_run_one_per_title [of s oa ss "[]"] by (simp add: title_key_empty_iff)
  from a b c d show ?thesis by blast
qed

theorem title_key_alone_drops_witness:
  "title_key (title (parsed ''10.9/z'' (Some ''10.9/z'') ''?!'' None)) \<in> {[]}
   \<and> doi_key (parsed ''10.9/z'' (Some ''10.9/z'') ''?!'' None) \<notin> {}
   \<and> deduplicate (parsed ''10.9/z'' (Some ''10.9/z'') ''?!'' None # []) {} {[]} = ([], {}, {[]})
   \<and> \<not> is_alnum (CHR ''?'') \<and> \<not> is_alnum (CHR ''!'')
   \<and> title_key ''?!'' = []"
  using title_key_alone_drops [where p = "parsed ''10.9/z'' (Some ''10.9/z'') ''?!'' None"
      and st = "{[]}" and ps = "[]" and sd = "{}" and t = "''?!''"]
  by (simp add: is_alnum_def string_evals)

section \<open>Screening (agents/screening_agent.py)\<close>

text \<open>\<^verbatim>\<open>str.upper\<close> on ASCII text: a lower-case letter loses bit 5 of its code.\<close>

definition upper_char :: "char \<Rightarrow> char" where
  "upper_char c = (let n = (of_char c :: nat) in
     if 97 \<le> n \<and> n \<le> 122
     then Char (digit0 c) (digit1 c) (digit2 c) (digit3 c) (digit4 c) False (digit6 c) (digit7 c)
     else c)"

definition upper :: "string \<Rightarrow> string" where
  "upper s = map upper_char s"

text \<open>
  \<^verbatim>\<open>get_papers\<close>: the optional filters on \<^verbatim>\<open>final_status\<close> and \<^verbatim>\<open>screening_pass1\<close> (the \<^verbatim>\<open>status\<close>
  argument is a second name for the first), then ORDER BY citation_count DESC NULLS LAST.
  Rows with equal counts stay in insertion order here; no result below depends on it.
\<close>

definition order_by_citations :: "paper list \<Rightarrow> paper list" where
  "order_by_citations rows =
     sort_key (\<lambda>r. case citation_count r of Some n \<Rightarrow> - n | None \<Rightarrow> 0)
       (filter (\<lambda>r. citation_count r \<noteq> None) rows)
     @ filter (\<lambda>r. citation_count r = None) rows"

definition get_papers :: "store \<Rightarrow> string option \<Rightarrow> string option \<Rightarrow> paper list" where
  "get_papers s final_status_arg pass1 =
     order_by_citations
       (filter (\<lambda>r. (case final_status_arg of None \<Rightarrow> True | Some v \<Rightarrow> final_status r = Some v)
                  \<and> (case pass1 of None \<Rightarrow> True | Some v \<Rightarrow> screening_pass1 r = Some v)) s)"

text \<open>The counts that \<^verbatim>\<open>run_pass1\<close> returns, and the count of included rows of \<^verbatim>\<open>count_papers\<close>.\<close>

record counts =
  n_include :: nat
  n_exclude :: nat
  n_borderline :: nat

definition count_papers_included :: "store \<Rightarrow> nat" where
  "count_papers_included s = length (filter (\<lambda>r. final_status r = Some ''INCLUDED'') s)"

text \<open>
  One element of the \<^verbatim>\<open>decisions\<close> list of a remote response. \<open>None\<close> is an absent key. The
  remote call, \<^verbatim>\<open>chat_completion_json\<close> with the prompt built from the batch, is a parameter:
  it raises, or returns a dictionary whose \<^verbatim>\<open>decisions\<close> key may be absent.
\<close>

record decision_entry =
  entry_id :: "string option"
  decision :: "string option"
  confidence :: "rat option"
  reason :: "string option"

type_synonym remote = "paper list \<Rightarrow> exn + decision_entry list option"

definition DEFAULT_SCREENING_BATCH_SIZE :: nat where
  "DEFAULT_SCREENING_BATCH_SIZE = 20"

text \<open>
  \<^verbatim>\<open>[unscreened[i : i + batch_size] for i in range(0, len(unscreened), batch_size)]\<close>. The
  batch size is the constant 20; a step of 0, which \<^verbatim>\<open>range\<close> refuses, gives no batch here.
\<close>

function chunks :: "nat \<Rightarrow> 'a list \<Rightarrow> 'a list list" where
  "chunks n xs = (if n = 0 \<or> xs = [] then [] else take n xs # chunks n (drop n xs))"
  by pat_completeness auto
termination
  by (relation "measure (\<lambda>(n, xs). length xs)") auto

declare chunks.simps [simp del]

text \<open>\<^verbatim>\<open>screen_batch\<close>: the decisions of the response, or one synthesized entry per paper.\<close>

definition api_error_entry :: "paper \<Rightarrow> decision_entry" where
  "api_error_entry p = \<lparr>entry_id = Some (paper_id p), decision = Some ''BORDERLINE'',
     confidence = Some 50, reason = Some ''API error''\<rparr>"

definition screen_batch :: "remote \<Rightarrow> paper list \<Rightarrow> decision_entry list" where
  "screen_batch llm batch =
     (case llm batch of
        Inr result \<Rightarrow> (case result of Some decisions \<Rightarrow> decisions | None \<Rightarrow> [])
      | Inl e \<Rightarrow> map api_error_entry batch)"

text \<open>
  The commit loop over \<^verbatim>\<open>all_decisions\<close>. \<open>label\<close> is the decision after \<^verbatim>\<open>.upper()\<close> and the
  coercion; \<open>pass1_fields\<close> is the first \<^verbatim>\<open>update_paper\<close> call of an iteration.
\<close>

definition label :: "decision_entry \<Rightarrow> string" where
  "label d =
     (let dec = upper (case decision d of None \<Rightarrow> ''BORDERLINE'' | Some v \<Rightarrow> v)
      in if dec \<noteq> ''INCLUDE'' \<and> dec \<noteq> ''EXCLUDE'' \<and> dec \<noteq> ''BORDERLINE'' then ''BORDERLINE'' else dec)"

definition pass1_fields :: "decision_entry \<Rightarrow> paper \<Rightarrow> paper" where
  "pass1_fields d r = r\<lparr>
     screening_pass1 := Some (label d),
     screening_pass1_reason := Some (case reason d of None \<Rightarrow> [] | Some v \<Rightarrow> v),
     screening_pass1_confidence := Some (case confidence d of None \<Rightarrow> 50 | Some v \<Rightarrow> v)\<rparr>"

fun commit_decisions :: "store \<Rightarrow> decision_entry list \<Rightarrow> counts \<Rightarrow> store \<times> counts" where
  "commit_decisions s [] c = (s, c)"
| "commit_decisions s (d # ds) c =
     (if \<not> truthy (entry_id d) then commit_decisions s ds c
      else
        (let pid = (case entry_id d of Some v \<Rightarrow> v | None \<Rightarrow> []);
             s1 = update_paper s pid (pass1_fields d)
         in if label d = ''INCLUDE''
            then commit_decisions s1 ds (c\<lparr>n_include := n_include c + 1\<rparr>)
            else if label d = ''EXCLUDE''
            then commit_decisions
                   (update_paper s1 pid (\<lambda>r. r\<lparr>final_status := Some ''EXCLUDED''\<rparr>)) ds
                   (c\<lparr>n_exclude := n_exclude c + 1\<rparr>)
            else commit_decisions s1 ds (c\<lparr>n_borderline := n_borderline c + 1\<rparr>)))"

text \<open>
  \<^verbatim>\<open>run_pass1\<close>. The workers only call \<^verbatim>\<open>screen_batch\<close>; their results are appended to
  \<^verbatim>\<open>all_decisions\<close> in the order of completion, which the parameter \<open>as_completed\<close> gives as
  a rearrangement of the list of results. The store is written by the commit loop alone.
  The event log and the progress messages are not modelled.
\<close>

definition unscreened :: "store \<Rightarrow> paper list" where
  "unscreened s = filter (\<lambda>p. \<not> truthy (screening_pass1 p)) (get_papers s None None)"

definition batches :: "store \<Rightarrow> paper list list" where
  "batches s = chunks DEFAULT_SCREENING_BATCH_SIZE (unscreened s)"

definition all_decisions ::
  "store \<Rightarrow> remote \<Rightarrow> (decision_entry list list \<Rightarrow> decision_entry list list) \<Rightarrow> decision_entry list" where
  "all_decisions s llm as_completed = concat (as_completed (map (screen_batch llm) (batches s)))"

definition run_pass1 ::
  "store \<Rightarrow> remote \<Rightarrow> (decision_entry list list \<Rightarrow> decision_entry list list) \<Rightarrow> store \<times> counts" where
  "run_pass1 s llm as_completed =
     (if unscreened s = [] then (s, \<lparr>n_include = 0, n_exclude = 0, n_borderline = 0\<rparr>)
      else commit_decisions s (all_decisions s llm as_completed)
             \<lparr>n_include = 0, n_exclude = 0, n_borderline = 0\<rparr>)"

text \<open>\<^verbatim>\<open>apply_human_decisions\<close> and \<^verbatim>\<open>finalize_included\<close>: loops over the rows fetched first.\<close>

fun apply_human_loop :: "store \<Rightarrow> paper list \<Rightarrow> store" where
  "apply_human_loop s [] = s"
| "apply_human_loop s (p # ps) =
     (if human_decision p = Some ''INCLUDE''
      then apply_human_loop
             (update_paper s (paper_id p)
                (\<lambda>r. r\<lparr>screening_pass1 := Some ''INCLUDE'', final_status := None\<rparr>)) ps
      else if human_decision p = Some ''EXCLUDE''
      then apply_human_loop
             (update_paper s (paper_id p) (\<lambda>r. r\<lparr>final_status := Some ''EXCLUDED''\<rparr>)) ps
      else apply_human_loop s ps)"

definition apply_human_decisions :: "store \<Rightarrow> store" where
  "apply_human_decisions s = apply_human_loop s (get_papers s None (Some ''BORDERLINE''))"

fun finalize_loop :: "store \<Rightarrow> paper list \<Rightarrow> store" where
  "finalize_loop s [] = s"
| "finalize_loop s (p # ps) =
     (if screening_pass1 p = Some ''INCLUDE'' \<and> \<not> truthy (final_status p)
      then finalize_loop
             (update_paper s (paper_id p) (\<lambda>r. r\<lparr>final_status := Some ''INCLUDED''\<rparr>)) ps
      else finalize_loop s ps)"

definition finalize_included :: "store \<Rightarrow> store" where
  "finalize_included s = finalize_loop s (get_papers s None None)"


text \<open>
  The two buttons of the review page (pages/2_Progress.py), offered for the rows whose
  decision is BORDERLINE and that have no human decision yet.
\<close>

datatype button = Include | Exclude

definition human_review :: "store \<Rightarrow> string \<Rightarrow> button \<Rightarrow> store" where
  "human_review s pid b =
     (if \<exists>p \<in> set (get_papers s None None).
            paper_id p = pid \<and> screening_pass1 p = Some ''BORDERLINE'' \<and> \<not> truthy (human_decision p)
      then update_paper s pid
             (\<lambda>r. r\<lparr>human_decision := Some (case b of Include \<Rightarrow> ''INCLUDE'' | Exclude \<Rightarrow> ''EXCLUDE'')\<rparr>)
      else s)"

text \<open>The operations that change the pipeline columns, and a sequence of them.\<close>

datatype operation =
    RunPass1 remote "decision_entry list list \<Rightarrow> decision_entry list list"
  | ApplyHumanDecisions
  | FinalizeIncluded
  | HumanReview string button
  | UpsertPapers "paper list"

fun exec_op :: "store \<Rightarrow> operation \<Rightarrow> store" where
  "exec_op s (RunPass1 llm as_completed) = fst (run_pass1 s llm as_completed)"
| "exec_op s ApplyHumanDecisions = apply_human_decisions s"
| "exec_op s FinalizeIncluded = finalize_included s"
| "exec_op s (HumanReview pid b) = human_review s pid b"
| "exec_op s (UpsertPapers ps) = fst (upsert_papers s ps)"

fun exec :: "store \<Rightarrow> operation list \<Rightarrow> store" where
  "exec s [] = s"
| "exec s (operation # ops) = exec (exec_op s operation) ops"

text \<open>
  The finalize invariant of one row, and of the store together with the primary key.
\<close>

definition row_inv :: "paper \<Rightarrow> bool" where
  "row_inv r \<longleftrightarrow>
     (final_status r = Some ''INCLUDED'' \<longrightarrow> screening_pass1 r = Some ''INCLUDE'')
     \<and> (final_status r = Some ''EXCLUDED'' \<longrightarrow>
          screening_pass1 r = Some ''EXCLUDE'' \<or> human_decision r = Some ''EXCLUDE'')"

definition store_inv :: "store \<Rightarrow> bool" where
  "store_inv s \<longleftrightarrow> distinct (map paper_id s) \<and> (\<forall>r \<in> set s. row_inv r)"

text \<open>
  The ids for which the commit loop writes, in order. \<open>answers_once\<close>: the decisions collected
  in one run name no id twice and name no row that was already screened. \<open>responses_ok\<close>
  asks this of every screening run of a sequence, in the store that run starts from.
\<close>

definition named_ids :: "decision_entry list \<Rightarrow> string list" where
  "named_ids ds =
     map (\<lambda>d. case entry_id d of Some v \<Rightarrow> v | None \<Rightarrow> []) (filter (\<lambda>d. truthy (entry_id d)) ds)"

definition answers_once :: "store \<Rightarrow> decision_entry list \<Rightarrow> bool" where
  "answers_once s ds \<longleftrightarrow>
     distinct (named_ids ds)
     \<and> (\<forall>r \<in> set s. paper_id r \<in> set (named_ids ds) \<longrightarrow> \<not> truthy (screening_pass1 r))"

fun responses_ok :: "store \<Rightarrow> operation list \<Rightarrow> bool" where
  "responses_ok s [] = True"
| "responses_ok s (RunPass1 llm as_completed # ops) =
     (answers_once s (all_decisions s llm as_completed)
      \<and> responses_ok (exec_op s (RunPass1 llm as_completed)) ops)"
| "responses_ok s (operation # ops) = responses_ok (exec_op s operation) ops"

subsection \<open>commit as a row-wise map\<close>

definition entry_step :: "decision_entry \<Rightarrow> paper \<Rightarrow> paper" where
  "entry_step d r =
     (if label d = ''EXCLUDE'' then (pass1_fields d r)\<lparr>final_status := Some ''EXCLUDED''\<rparr>
      else pass1_fields d r)"

definition on_row :: "decision_entry \<Rightarrow> paper \<Rightarrow> paper" where
  "on_row d r = (if truthy (entry_id d) \<and> entry_id d = Some (paper_id r) then entry_step d r else r)"

lemma label_cases: "label d = ''INCLUDE'' \<or> label d = ''EXCLUDE'' \<or> label d = ''BORDERLINE''"
  by (simp add: label_def Let_def)

lemma paper_id_pass1_fields: "paper_id (pass1_fields d r) = paper_id r"
  by (simp add: pass1_fields_def)

lemma paper_id_entry_step: "paper_id (entry_step d r) = paper_id r"
  by (simp add: entry_step_def paper_id_pass1_fields)

lemma paper_id_on_row: "paper_id (on_row d r) = paper_id r"
  by (simp add: on_row_def paper_id_entry_step)

lemma paper_id_fold_on_row: "paper_id (fold on_row ds r) = paper_id r"
  by (induction ds arbitrary: r) (simp_all add: paper_id_on_row)

lemma update_paper_twice:
  "(\<And>r. paper_id (f r) = paper_id r) \<Longrightarrow>
     update_paper (update_paper s i f) i g = update_paper s i (\<lambda>r. g (f r))"
  by (simp add: update_paper_def)

lemma map_update_paper: "map h (update_paper s i f) = map (\<lambda>r. h (if paper_id r = i then f r else r)) s"
  by (simp add: update_paper_def comp_def)

lemma commit_step_store:
  assumes "entry_id d = Some pid" "pid \<noteq> []"
  shows "(if label d = ''EXCLUDE''
          then update_paper (update_paper s pid (pass1_fields d)) pid
                 (\<lambda>r. r\<lparr>final_status := Some ''EXCLUDED''\<rparr>)
          else update_paper s pid (pass1_fields d)) = map (on_row d) s"
proof -
  have "update_paper (update_paper s pid (pass1_fields d)) pid (\<lambda>r. r\<lparr>final_status := Some ''EXCLUDED''\<rparr>)
      = update_paper s pid (\<lambda>r. (pass1_fields d r)\<lparr>final_status := Some ''EXCLUDED''\<rparr>)"
    by (rule update_paper_twice) (rule paper_id_pass1_fields)
  with assms show ?thesis
    by (auto simp: update_paper_def on_row_def entry_step_def)
qed

lemma commit_as_map: "fst (commit_decisions s ds c) = map (fold on_row ds) s"
proof (induction ds arbitrary: s c)
  case Nil
  show ?case by simp
next
  case (Cons d ds)
  show ?case
  proof (cases "truthy (entry_id d)")
    case False
    then have "on_row d = (\<lambda>r. r)" by (simp add: on_row_def fun_eq_iff)
    with False Cons.IH [of s c] show ?thesis by simp
  next
    case True
    then obtain pid where pid: "entry_id d = Some pid" "pid \<noteq> []"
      by (cases "entry_id d") auto
    note step = commit_step_store [OF pid, of s]
    have "fst (commit_decisions s (d # ds) c) = map (fold on_row ds) (map (on_row d) s)"
    proof (cases "label d = ''INCLUDE''")
      case True
      with pid step [symmetric] show ?thesis by (simp add: Let_def Cons.IH)
    next
      case ni: False
      show ?thesis
      proof (cases "label d = ''EXCLUDE''")
        case True
        with pid ni step [symmetric] show ?thesis by (simp add: Let_def Cons.IH)
      next
        case False
        with pid ni step [symmetric] show ?thesis by (simp add: Let_def Cons.IH)
      qed
    qed
    then show ?thesis by (simp add: comp_def)
  qed
qed


subsection \<open>the invariant\<close>

lemma not_truthy_Some: "\<not> truthy x \<Longrightarrow> v \<noteq> [] \<Longrightarrow> x \<noteq> Some v"
  by (cases x) auto

lemma entry_step_row_inv:
  assumes "row_inv r" "\<not> truthy (screening_pass1 r)"
  shows "row_inv (entry_step d r)"
proof -
  from assms(2) have ns: "screening_pass1 r \<noteq> Some ''INCLUDE''" "screening_pass1 r \<noteq> Some ''EXCLUDE''"
    by (simp_all add: not_truthy_Some)
  with assms(1) have fs: "final_status r \<noteq> Some ''INCLUDED''"
    "final_status r = Some ''EXCLUDED'' \<longrightarrow> human_decision r = Some ''EXCLUDE''"
    by (auto simp: row_inv_def)
  from label_cases [of d] fs show ?thesis
    by (auto simp: row_inv_def entry_step_def pass1_fields_def)
qed

lemma named_ids_Cons:
  "named_ids (d # ds) =
     (if truthy (entry_id d) then (case entry_id d of Some v \<Rightarrow> v | None \<Rightarrow> []) # named_ids ds
      else named_ids ds)"
  by (simp add: named_ids_def)

lemma on_row_not_named: "paper_id r \<notin> set (named_ids [d]) \<Longrightarrow> on_row d r = r"
  by (cases "entry_id d") (auto simp: on_row_def named_ids_def)

lemma on_row_named:
  "on_row d r \<noteq> r \<Longrightarrow> truthy (entry_id d) \<and> entry_id d = Some (paper_id r)"
  by (auto simp: on_row_def split: if_splits)

lemma fold_on_row_not_named: "paper_id r \<notin> set (named_ids ds) \<Longrightarrow> fold on_row ds r = r"
proof (induction ds arbitrary: r)
  case Nil
  show ?case by simp
next
  case (Cons d ds)
  from Cons.prems have "paper_id r \<notin> set (named_ids [d])" "paper_id r \<notin> set (named_ids ds)"
    by (auto simp: named_ids_def)
  then show ?case by (simp add: on_row_not_named Cons.IH)
qed

lemma fold_on_row_inv:
  assumes "row_inv r" "distinct (named_ids ds)"
    "paper_id r \<in> set (named_ids ds) \<longrightarrow> \<not> truthy (screening_pass1 r)"
  shows "row_inv (fold on_row ds r)"
  using assms
proof (induction ds arbitrary: r)
  case Nil
  then show ?case by simp
next
  case (Cons d ds)
  show ?case
  proof (cases "truthy (entry_id d) \<and> entry_id d = Some (paper_id r)")
    case True
    with Cons.prems(2) have fresh: "paper_id r \<notin> set (named_ids ds)"
      by (auto simp: named_ids_Cons)
    from True Cons.prems(3) have "\<not> truthy (screening_pass1 r)"
      by (auto simp: named_ids_Cons)
    with Cons.prems(1) have "row_inv (entry_step d r)" by (rule entry_step_row_inv)
    moreover from fresh have "fold on_row ds (entry_step d r) = entry_step d r"
      by (simp add: fold_on_row_not_named paper_id_entry_step)
    moreover from True have "on_row d r = entry_step d r" by (auto simp: on_row_def)
    ultimately show ?thesis by simp
  next
    case False
    then have same: "on_row d r = r" by (auto simp: on_row_def)
    from False Cons.prems(3) have "paper_id r \<in> set (named_ids ds) \<longrightarrow> \<not> truthy (screening_pass1 r)"
      by (cases "entry_id d") (auto simp: named_ids_Cons)
    moreover from Cons.prems(2) have "distinct (named_ids ds)"
      by (simp add: named_ids_Cons split: if_splits)
    ultimately have "row_inv (fold on_row ds r)" using Cons.prems(1) by (intro Cons.IH)
    with same show ?thesis by simp
  qed
qed

lemma commit_ids: "map paper_id (fst (commit_decisions s ds c)) = map paper_id s"
  by (simp add: commit_as_map comp_def paper_id_fold_on_row)

lemma commit_store_inv:
  assumes "store_inv s" "answers_once s ds"
  shows "store_inv (fst (commit_decisions s ds c))"
proof -
  have "row_inv (fold on_row ds r)" if "r \<in> set s" for r
    using assms that by (intro fold_on_row_inv) (auto simp: store_inv_def answers_once_def)
  then have rows: "\<forall>r \<in> set (fst (commit_decisions s ds c)). row_inv r"
    by (auto simp: commit_as_map)
  from assms(1) have "distinct (map paper_id (fst (commit_decisions s ds c)))"
    by (simp only: commit_ids store_inv_def)
  with rows show ?thesis by (simp add: store_inv_def)
qed

lemma run_pass1_store_inv:
  assumes "store_inv s" "answers_once s (all_decisions s llm ac)"
  shows "store_inv (fst (run_pass1 s llm ac))"
  using assms by (simp add: run_pass1_def commit_store_inv)

subsection \<open>the loops over a snapshot\<close>

definition human_step :: "paper \<Rightarrow> paper \<Rightarrow> paper" where
  "human_step p r =
     (if paper_id r = paper_id p
      then (if human_decision p = Some ''INCLUDE''
            then r\<lparr>screening_pass1 := Some ''INCLUDE'', final_status := None\<rparr>
            else if human_decision p = Some ''EXCLUDE''
            then r\<lparr>final_status := Some ''EXCLUDED''\<rparr> else r)
      else r)"

lemma map_human_step:
  "map (human_step p) s =
     (if human_decision p = Some ''INCLUDE''
      then update_paper s (paper_id p)
             (\<lambda>r. r\<lparr>screening_pass1 := Some ''INCLUDE'', final_status := None\<rparr>)
      else if human_decision p = Some ''EXCLUDE''
      then update_paper s (paper_id p) (\<lambda>r. r\<lparr>final_status := Some ''EXCLUDED''\<rparr>)
      else s)"
  by (auto simp: update_paper_def human_step_def intro!: map_idI)

lemma apply_human_loop_as_map: "apply_human_loop s ps = map (fold human_step ps) s"
proof (induction ps arbitrary: s)
  case Nil
  show ?case by simp
next
  case (Cons p ps)
  have "apply_human_loop s (p # ps) = apply_human_loop (map (human_step p) s) ps"
    by (simp add: map_human_step)
  then show ?case by (simp add: Cons.IH comp_def)
qed

lemma human_step_keeps: "paper_id (human_step p r) = paper_id r"
  "human_decision (human_step p r) = human_decision r"
  by (simp_all add: human_step_def)

lemma fold_human_step_inv:
  assumes "row_inv r" "\<forall>p \<in> set ps. paper_id p = paper_id r \<longrightarrow> human_decision p = human_decision r"
  shows "row_inv (fold human_step ps r) \<and> paper_id (fold human_step ps r) = paper_id r"
  using assms
proof (induction ps arbitrary: r)
  case Nil
  then show ?case by simp
next
  case (Cons p ps)
  from Cons.prems have "row_inv (human_step p r)"
    by (auto simp: human_step_def row_inv_def)
  moreover from Cons.prems(2) have
    "\<forall>q \<in> set ps. paper_id q = paper_id (human_step p r) \<longrightarrow>
        human_decision q = human_decision (human_step p r)"
    by (simp add: human_step_keeps)
  ultimately have "row_inv (fold human_step ps (human_step p r))
      \<and> paper_id (fold human_step ps (human_step p r)) = paper_id (human_step p r)"
    by (rule Cons.IH)
  then show ?case by (simp add: human_step_keeps)
qed

definition finalize_step :: "paper \<Rightarrow> paper \<Rightarrow> paper" where
  "finalize_step p r =
     (if paper_id r = paper_id p \<and> screening_pass1 p = Some ''INCLUDE'' \<and> \<not> truthy (final_status p)
      then r\<lparr>final_status := Some ''INCLUDED''\<rparr> else r)"

lemma map_finalize_step:
  "map (finalize_step p) s =
     (if screening_pass1 p = Some ''INCLUDE'' \<and> \<not> truthy (final_status p)
      then update_paper s (paper_id p) (\<lambda>r. r\<lparr>final_status := Some ''INCLUDED''\<rparr>)
      else s)"
  by (auto simp: update_paper_def finalize_step_def intro!: map_idI)

lemma finalize_loop_as_map: "finalize_loop s ps = map (fold finalize_step ps) s"
proof (induction ps arbitrary: s)
  case Nil
  show ?case by simp
next
  case (Cons p ps)
  have "finalize_loop s (p # ps) = finalize_loop (map (finalize_step p) s) ps"
    by (simp add: map_finalize_step)
  then show ?case by (simp add: Cons.IH comp_def)
qed

lemma finalize_step_keeps: "paper_id (finalize_step p r) = paper_id r"
  "screening_pass1 (finalize_step p r) = screening_pass1 r"
  by (simp_all add: finalize_step_def)

lemma fold_finalize_step_inv:
  assumes "row_inv r" "\<forall>p \<in> set ps. paper_id p = paper_id r \<longrightarrow> screening_pass1 p = screening_pass1 r"
  shows "row_inv (fold finalize_step ps r) \<and> paper_id (fold finalize_step ps r) = paper_id r"
  using assms
proof (induction ps arbitrary: r)
  case Nil
  then show ?case by simp
next
  case (Cons p ps)
  from Cons.prems have "row_inv (finalize_step p r)"
    by (auto simp: finalize_step_def row_inv_def)
  moreover from Cons.prems(2) have
    "\<forall>q \<in> set ps. paper_id q = paper_id (finalize_step p r) \<longrightarrow>
        screening_pass1 q = screening_pass1 (finalize_step p r)"
    by (simp add: finalize_step_keeps)
  ultimately have "row_inv (fold finalize_step ps (finalize_step p r))
      \<and> paper_id (fold finalize_step ps (finalize_step p r)) = paper_id (finalize_step p r)"
    by (rule Cons.IH)
  then show ?case by (simp add: finalize_step_keeps)
qed

lemma set_order_by_citations: "set (order_by_citations rows) = set rows"
  by (auto simp: order_by_citations_def)

lemma set_get_papers: "set (get_papers s fs p1) \<subseteq> set s"
  by (auto simp: get_papers_def set_order_by_citations)

lemma same_id_same_row:
  "distinct (map paper_id s) \<Longrightarrow> p \<in> set s \<Longrightarrow> r \<in> set s \<Longrightarrow> paper_id p = paper_id r \<Longrightarrow> p = r"
  by (meson distinct_map inj_onD)

lemma apply_human_decisions_store_inv:
  assumes "store_inv s"
  shows "store_inv (apply_human_decisions s)"
proof -
  let ?ps = "get_papers s None (Some ''BORDERLINE'')"
  have "row_inv (fold human_step ?ps r) \<and> paper_id (fold human_step ?ps r) = paper_id r"
    if "r \<in> set s" for r
  proof (rule fold_human_step_inv)
    from assms that show "row_inv r" by (simp add: store_inv_def)
    show "\<forall>p \<in> set ?ps. paper_id p = paper_id r \<longrightarrow> human_decision p = human_decision r"
    proof (intro ballI impI)
      fix p assume "p \<in> set ?ps" "paper_id p = paper_id r"
      with set_get_papers [of s None "Some ''BORDERLINE''"] assms that have "p = r"
        by (auto simp: store_inv_def intro: same_id_same_row)
      then show "human_decision p = human_decision r" by simp
    qed
  qed
  then have "map paper_id (map (fold human_step ?ps) s) = map paper_id s"
    "\<forall>r \<in> set (map (fold human_step ?ps) s). row_inv r"
    by simp_all
  with assms show ?thesis
    by (simp only: store_inv_def apply_human_decisions_def apply_human_loop_as_map)
qed

lemma finalize_included_store_inv:
  assumes "store_inv s"
  shows "store_inv (finalize_included s)"
proof -
  let ?ps = "get_papers s None None"
  have "row_inv (fold finalize_step ?ps r) \<and> paper_id (fold finalize_step ?ps r) = paper_id r"
    if "r \<in> set s" for r
  proof (rule fold_finalize_step_inv)
    from assms that show "row_inv r" by (simp add: store_inv_def)
    show "\<forall>p \<in> set ?ps. paper_id p = paper_id r \<longrightarrow> screening_pass1 p = screening_pass1 r"
    proof (intro ballI impI)
      fix p assume "p \<in> set ?ps" "paper_id p = paper_id r"
      with set_get_papers [of s None None] assms that have "p = r"
        by (auto simp: store_inv_def intro: same_id_same_row)
      then show "screening_pass1 p = screening_pass1 r" by simp
    qed
  qed
  then have "map paper_id (map (fold finalize_step ?ps) s) = map paper_id s"
    "\<forall>r \<in> set (map (fold finalize_step ?ps) s). row_inv r"
    by simp_all
  with assms show ?thesis
    by (simp only: store_inv_def finalize_included_def finalize_loop_as_map)
qed

lemma human_review_store_inv:
  assumes "store_inv s"
  shows "store_inv (human_review s pid b)"
proof (cases "\<exists>p \<in> set (get_papers s None None).
            paper_id p = pid \<and> screening_pass1 p = Some ''BORDERLINE'' \<and> \<not> truthy (human_decision p)")
  case False
  then have "human_review s pid b = s" unfolding human_review_def by (rule if_not_P)
  with assms show ?thesis by simp
next
  case True
  then have hr: "human_review s pid b = update_paper s pid
      (\<lambda>r. r\<lparr>human_decision := Some (case b of Include \<Rightarrow> ''INCLUDE'' | Exclude \<Rightarrow> ''EXCLUDE'')\<rparr>)"
    unfolding human_review_def by (rule if_P)
  from True obtain p where p: "p \<in> set s" "paper_id p = pid" "screening_pass1 p = Some ''BORDERLINE''"
    "\<not> truthy (human_decision p)"
    using set_get_papers [of s None None] by auto
  let ?f = "\<lambda>r. r\<lparr>human_decision := Some (case b of Include \<Rightarrow> ''INCLUDE'' | Exclude \<Rightarrow> ''EXCLUDE'')\<rparr>"
  have "row_inv (if paper_id r = pid then ?f r else r)" if "r \<in> set s" for r
  proof (cases "paper_id r = pid")
    case False
    with assms that show ?thesis by (simp add: store_inv_def)
  next
    case True
    with p assms that have "r = p" by (auto simp: store_inv_def intro: same_id_same_row)
    moreover from assms p(1) have "row_inv p" by (simp add: store_inv_def)
    moreover from p(4) have "human_decision p \<noteq> Some ''EXCLUDE''" by (simp add: not_truthy_Some)
    ultimately show ?thesis using True p(3) by (auto simp: row_inv_def)
  qed
  then have "\<forall>r \<in> set s. row_inv (if paper_id r = pid then ?f r else r)"
    by blast
  then have rows: "\<forall>r \<in> set (update_paper s pid ?f). row_inv r"
    unfolding update_paper_def set_map by blast
  have "map paper_id (update_paper s pid ?f) = map paper_id s"
    by (simp add: update_paper_def comp_def cong: map_cong)
  with assms have "distinct (map paper_id (update_paper s pid ?f))"
    by (simp only: store_inv_def)
  with rows show ?thesis by (simp only: hr store_inv_def)
qed

lemma row_inv_new_row: "row_inv (new_row p)"
  by (simp add: row_inv_def new_row_def)

lemma upsert_loop_store_inv: "store_inv s \<Longrightarrow> store_inv (fst (upsert_loop s ps n))"
proof (induction ps arbitrary: s n)
  case Nil
  then show ?case by simp
next
  case (Cons p ps)
  show ?case
  proof (cases "known_id s (paper_id p)")
    case True
    with Cons show ?thesis by simp
  next
    case False
    with Cons.prems have "store_inv (s @ [new_row p])"
      by (auto simp: store_inv_def known_id_def paper_id_new_row row_inv_new_row)
    with False Cons.IH [of "s @ [new_row p]" "n + 1"] show ?thesis by simp
  qed
qed

lemma upsert_papers_store_inv: "store_inv s \<Longrightarrow> store_inv (fst (upsert_papers s ps))"
  by (simp add: upsert_papers_def upsert_loop_store_inv)

lemma exec_op_store_inv:
  "store_inv s \<Longrightarrow> responses_ok s [operation] \<Longrightarrow> store_inv (exec_op s operation)"
  by (cases operation)
    (simp_all add: run_pass1_store_inv apply_human_decisions_store_inv
      finalize_included_store_inv human_review_store_inv upsert_papers_store_inv)

lemma responses_ok_Cons:
  "responses_ok s (operation # ops) \<longleftrightarrow>
     responses_ok s [operation] \<and> responses_ok (exec_op s operation) ops"
  by (cases operation) simp_all

lemma exec_store_inv: "store_inv s \<Longrightarrow> responses_ok s ops \<Longrightarrow> store_inv (exec s ops)"
proof (induction ops arbitrary: s)
  case Nil
  then show ?case by simp
next
  case (Cons operation ops)
  from Cons.prems(2) have ok: "responses_ok s [operation]" "responses_ok (exec_op s operation) ops"
    by (simp_all only: responses_ok_Cons [of s operation ops])
  from Cons.prems(1) ok(1) have "store_inv (exec_op s operation)" by (rule exec_op_store_inv)
  then have "store_inv (exec (exec_op s operation) ops)" using ok(2) by (rule Cons.IH)
  then show ?case by simp
qed


subsection \<open>Examples\<close>

definition example_remote :: remote where
  "example_remote batch = Inr (Some
     [\<lparr>entry_id = Some ''W1'', decision = Some ''INCLUDE'', confidence = Some 90, reason = Some ''on topic''\<rparr>,
      \<lparr>entry_id = Some ''W2'', decision = Some ''BORDERLINE'', confidence = Some 40, reason = Some ''unclear''\<rparr>,
      \<lparr>entry_id = Some ''W3'', decision = Some ''EXCLUDE'', confidence = Some 80, reason = Some ''off topic''\<rparr>])"

definition example_run :: "operation list" where
  "example_run =
     [UpsertPapers [parsed ''W1'' None ''First'' None, parsed ''W2'' None ''Second'' None,
                    parsed ''W3'' None ''Third'' None],
      RunPass1 example_remote (\<lambda>outcomes. outcomes), FinalizeIncluded,
      HumanReview ''W2'' Include, ApplyHumanDecisions, FinalizeIncluded]"

definition duplicate_remote :: remote where
  "duplicate_remote batch = Inr (Some
     [\<lparr>entry_id = Some ''W1'', decision = Some ''EXCLUDE'', confidence = Some 60, reason = Some ''off topic''\<rparr>,
      \<lparr>entry_id = Some ''W1'', decision = Some ''INCLUDE'', confidence = Some 70, reason = Some ''on topic''\<rparr>])"

text \<open>
  C1 (as amended). From a store that satisfies the invariant, for instance the empty
  one, every sequence of insertions, screening runs, human reviews, \<^verbatim>\<open>apply_human_decisions\<close>
  and \<^verbatim>\<open>finalize_included\<close> leads to a store in which every row with final status INCLUDED
  has the screening decision INCLUDE, and every row with final status EXCLUDED has the
  screening decision EXCLUDE or the human decision EXCLUDE, provided that in each
  screening run the collected decisions name no paper twice and no paper that was
  already screened.
\<close>

theorem finalize_invariant:
  "store_inv s \<Longrightarrow> responses_ok s ops \<Longrightarrow>
     store_inv (exec s ops)
     \<and> (\<forall>r \<in> set (exec s ops).
          (final_status r = Some ''INCLUDED'' \<longrightarrow> screening_pass1 r = Some ''INCLUDE'')
          \<and> (final_status r = Some ''EXCLUDED'' \<longrightarrow>
               screening_pass1 r = Some ''EXCLUDE'' \<or> human_decision r = Some ''EXCLUDE''))"
proof -
  assume "store_inv s" "responses_ok s ops"
  then have "store_inv (exec s ops)" by (rule exec_store_inv)
  then show ?thesis by (simp add: store_inv_def row_inv_def)
qed

theorem finalize_invariant_witness:
  "store_inv [] \<and> responses_ok [] example_run \<and> store_inv (exec [] example_run)
   \<and> map (\<lambda>r. (screening_pass1 r, human_decision r, final_status r)) (exec [] example_run)
     = [(Some ''INCLUDE'', None, Some ''INCLUDED''),
        (Some ''INCLUDE'', Some ''INCLUDE'', Some ''INCLUDED''),
        (Some ''EXCLUDE'', None, Some ''EXCLUDED'')]"
proof -
  have h1: "store_inv []" by (simp add: store_inv_def)
  have h2: "responses_ok [] example_run" by code_simp
  have h3: "map (\<lambda>r. (screening_pass1 r, human_decision r, final_status r)) (exec [] example_run)
     = [(Some ''INCLUDE'', None, Some ''INCLUDED''),
        (Some ''INCLUDE'', Some ''INCLUDE'', Some ''INCLUDED''),
        (Some ''EXCLUDE'', None, Some ''EXCLUDED'')]" by code_simp
  from finalize_invariant [OF h1 h2] h1 h2 h3 show ?thesis by blast
qed

text \<open>
  C1 as stated fails: a response that names one submitted paper twice, EXCLUDE and then
  INCLUDE, leaves it with decision INCLUDE and final status EXCLUDED, and
  \<^verbatim>\<open>finalize_included\<close> does not repair it.
\<close>

theorem repeated_id_breaks_invariant:
  "store_inv [new_row (parsed ''W1'' None ''First'' None)]
   \<and> \<not> store_inv (exec [new_row (parsed ''W1'' None ''First'' None)]
                     [RunPass1 duplicate_remote (\<lambda>outcomes. outcomes)])
   \<and> map (\<lambda>r. (screening_pass1 r, human_decision r, final_status r))
       (exec [new_row (parsed ''W1'' None ''First'' None)]
          [RunPass1 duplicate_remote (\<lambda>outcomes. outcomes), FinalizeIncluded])
     = [(Some ''INCLUDE'', None, Some ''EXCLUDED'')]"
  by code_simp







definition zero_counts :: counts where
  "zero_counts = \<lparr>n_include = 0, n_exclude = 0, n_borderline = 0\<rparr>"

definition entry :: "string option \<Rightarrow> string option \<Rightarrow> decision_entry" where
  "entry i v = \<lparr>entry_id = i, decision = v, confidence = None, reason = None\<rparr>"





subsection \<open>A batch whose remote call raises\<close>






















lemma fst_run_pass1:
  "fst (run_pass1 s llm ac) = (if unscreened s = [] then s
     else fst (commit_decisions s (all_decisions s llm ac) zero_counts))"
  by (simp add: run_pass1_def zero_counts_def)








section \<open>Quality assessment (agents/quality_agent.py)\<close>



type_synonym quality_result = "rat \<times> string \<times> string"


text \<open>The commit loop: \<^verbatim>\<open>update_paper(conn, paper_id, **result)\<close> for each collected result.\<close>

definition quality_fields :: "quality_result \<Rightarrow> paper \<Rightarrow> paper" where
  "quality_fields result r =
     (case result of (score, notes, flag) \<Rightarrow>
        r\<lparr>quality_score := Some score, quality_notes := Some notes, quality_flag := Some flag\<rparr>)"




text \<open>The commit loop as a row-wise map.\<close>

definition result_step :: "string \<times> quality_result \<Rightarrow> paper \<Rightarrow> paper" where
  "result_step out r = (if paper_id r = fst out then quality_fields (snd out) r else r)"

lemma paper_id_quality_fields: "paper_id (quality_fields result r) = paper_id r"
  by (cases result) (simp add: quality_fields_def)

lemma paper_id_result_step: "paper_id (result_step out r) = paper_id r"
  by (simp add: result_step_def paper_id_quality_fields)













subsection \<open>Examples\<close>

definition included_row :: "string \<Rightarrow> paper" where
  "included_row i = (new_row (parsed i None ''Accepted'' None))
     \<lparr>screening_pass1 := Some ''INCLUDE'', final_status := Some ''INCLUDED''\<rparr>"






section \<open>Relevance scoring (agents/relevance_agent.py)\<close>

text \<open>
  \<^verbatim>\<open>_tokenise\<close>: lower-case, delete what \<^verbatim>\<open>[^\w\s]\<close> matches, split at white space, drop the
  stop-words and the words of at most two characters. On ASCII text \<^verbatim>\<open>\w\<close> is a letter, a
  digit or the underscore.
\<close>

definition is_word_char :: "char \<Rightarrow> bool" where
  "is_word_char c \<longleftrightarrow> is_alnum c \<or> c = CHR ''_''"

fun split_acc :: "string \<Rightarrow> string \<Rightarrow> string list" where
  "split_acc [] w = (if w = [] then [] else [rev w])"
| "split_acc (c # cs) w =
     (if is_space c then (if w = [] then split_acc cs [] else rev w # split_acc cs [])
      else split_acc cs (c # w))"

definition split_words :: "string \<Rightarrow> string list" where
  "split_words s = split_acc s []"

definition STOPWORDS :: "string set" where
  "STOPWORDS = {''the'', ''a'', ''an'', ''and'', ''or'', ''of'', ''in'', ''to'', ''for'',
     ''is'', ''are'', ''was'', ''were'', ''be'', ''been'', ''being'',
     ''that'', ''this'', ''which'', ''with'', ''by'', ''from'', ''as''}"

definition tokenise :: "string \<Rightarrow> string set" where
  "tokenise text =
     (let words = split_words (filter (\<lambda>c. is_word_char c \<or> is_space c) (lower text))
      in set (filter (\<lambda>w. w \<notin> STOPWORDS \<and> length w > 2) words))"

text \<open>
  \<^verbatim>\<open>round(x, 1)\<close>: to the nearest tenth, a tie to the even one. Python floats are exact
  rationals here, so the scores are those of exact arithmetic; the bounds below do not
  depend on that.
\<close>

definition round_half_even :: "rat \<Rightarrow> int" where
  "round_half_even x =
     (let f = \<lfloor>x\<rfloor>; d = x - of_int f
      in if d < 1 / 2 then f else if 1 / 2 < d then f + 1 else if even f then f else f + 1)"

definition round1 :: "rat \<Rightarrow> rat" where
  "round1 x = of_int (round_half_even (x * 10)) / 10"

text \<open>
  The score from the cosine similarity \<open>sim\<close> of the question and a stored embedding. The
  vectors, their normalisation and the dot product stay outside: the similarity of a
  stored vector is given by a parameter.
\<close>

definition similarity_score :: "rat \<Rightarrow> rat" where
  "similarity_score sim = round1 (max 0 (min 100 ((sim - 3 / 10) / (7 / 10) * 100)))"

text \<open>
  \<^verbatim>\<open>_keyword_score\<close>. The text is the f-string of the title and the abstract of the row, in
  which a NULL abstract reads \<^verbatim>\<open>None\<close>.
\<close>

definition paper_text :: "paper \<Rightarrow> string" where
  "paper_text p = title p @ '' '' @ (case abstract p of None \<Rightarrow> ''None'' | Some a \<Rightarrow> a)"

definition keyword_score :: "string \<Rightarrow> paper \<Rightarrow> rat" where
  "keyword_score research_question p =
     (let rq_words = tokenise research_question;
          paper_words = tokenise (paper_text p);
          overlap = of_nat (card (rq_words \<inter> paper_words)) / of_nat (max (card rq_words) 1)
      in round1 (min 100 (overlap * 150)))"

fun keyword_score_loop :: "store \<Rightarrow> paper list \<Rightarrow> string \<Rightarrow> store" where
  "keyword_score_loop s [] research_question = s"
| "keyword_score_loop s (p # ps) research_question =
     keyword_score_loop
       (update_paper s (paper_id p)
          (\<lambda>r. r\<lparr>relevance_score := Some (keyword_score research_question p)\<rparr>))
       ps research_question"

fun similarity_loop :: "store \<Rightarrow> paper list \<Rightarrow> (string \<rightharpoonup> 'v) \<Rightarrow> ('v \<Rightarrow> rat) \<Rightarrow> store" where
  "similarity_loop s [] embedding_map sim = s"
| "similarity_loop s (p # ps) embedding_map sim =
     (case embedding_map (paper_id p) of
        None \<Rightarrow> similarity_loop s ps embedding_map sim
      | Some vec \<Rightarrow>
          similarity_loop
            (update_paper s (paper_id p) (\<lambda>r. r\<lparr>relevance_score := Some (similarity_score (sim vec))\<rparr>))
            ps embedding_map sim)"

text \<open>
  \<^verbatim>\<open>RelevanceAgent.run\<close>. \<open>stored\<close> is the embeddings table; \<open>question_similarity\<close> is the
  embedding call for the question, which raises or yields the similarity of each stored
  vector. The exception of that call leaves the run.
\<close>

definition relevance_run ::
  "store \<Rightarrow> string \<Rightarrow> (string \<times> 'v) list \<Rightarrow> exn + ('v \<Rightarrow> rat) \<Rightarrow> exn + store" where
  "relevance_run s research_question stored question_similarity =
     (let papers = get_papers s (Some ''INCLUDED'') None
      in if papers = [] then Inr s
         else if stored = [] then Inr (keyword_score_loop s papers research_question)
         else (case question_similarity of
                 Inl e \<Rightarrow> Inl e
               | Inr sim \<Rightarrow> Inr (similarity_loop s papers (map_of (rev stored)) sim)))"

definition scores_bounded :: "store \<Rightarrow> bool" where
  "scores_bounded s \<longleftrightarrow>
     (\<forall>r \<in> set s. case relevance_score r of None \<Rightarrow> True | Some x \<Rightarrow> 0 \<le> x \<and> x \<le> 100)"


lemma round_half_even_bounds:
  assumes "0 \<le> x" "x \<le> of_int n"
  shows "0 \<le> round_half_even x \<and> round_half_even x \<le> n"
proof -
  let ?f = "\<lfloor>x\<rfloor>"
  from assms(1) have f0: "0 \<le> ?f" by simp
  from assms(2) have fn: "?f \<le> n" by (simp add: floor_le_iff)
  have up: "round_half_even x \<le> n"
  proof (cases "?f = n")
    case True
    with assms(2) have "x - of_int ?f \<le> 0" by simp
    then have "x - of_int ?f < 1 / 2" by simp
    with True show ?thesis by (simp add: round_half_even_def Let_def)
  next
    case False
    with fn have "?f + 1 \<le> n" by simp
    with fn show ?thesis by (simp add: round_half_even_def Let_def)
  qed
  from f0 have "0 \<le> round_half_even x" by (simp add: round_half_even_def Let_def)
  with up show ?thesis by simp
qed

lemma round1_bounds:
  assumes "0 \<le> y" "y \<le> 100"
  shows "0 \<le> round1 y \<and> round1 y \<le> 100"
proof -
  from assms have "0 \<le> y * 10" "y * 10 \<le> of_int 1000" by simp_all
  then have "0 \<le> round_half_even (y * 10) \<and> round_half_even (y * 10) \<le> 1000"
    by (rule round_half_even_bounds)
  then have "(0::rat) \<le> of_int (round_half_even (y * 10))"
    "(of_int (round_half_even (y * 10)) :: rat) \<le> of_int 1000"
    by (simp_all only: of_int_le_iff of_int_0_le_iff)
  then show ?thesis by (simp add: round1_def)
qed

lemma round1_zero: "round1 0 = 0"
  by (simp add: round1_def round_half_even_def)

lemma similarity_score_bounds: "0 \<le> similarity_score sim \<and> similarity_score sim \<le> 100"
  unfolding similarity_score_def by (rule round1_bounds) simp_all

lemma keyword_score_eq:
  "keyword_score rq p =
     round1 (min 100 (150 * of_nat (card (tokenise rq \<inter> tokenise (paper_text p)))
                        / of_nat (max (card (tokenise rq)) 1)))"
  by (simp add: keyword_score_def Let_def mult.commute)

lemma keyword_score_bounds: "0 \<le> keyword_score rq p \<and> keyword_score rq p \<le> 100"
  unfolding keyword_score_eq by (rule round1_bounds) simp_all

lemma keyword_score_disjoint:
  "tokenise rq \<inter> tokenise (paper_text p) = {} \<Longrightarrow> keyword_score rq p = 0"
  by (simp add: keyword_score_eq round1_zero)

lemma scores_bounded_update:
  assumes "scores_bounded s" "0 \<le> v \<and> v \<le> 100"
  shows "scores_bounded (update_paper s i (\<lambda>r. r\<lparr>relevance_score := Some v\<rparr>))"
  using assms unfolding scores_bounded_def update_paper_def set_map by auto

lemma keyword_score_loop_bounded:
  "scores_bounded s \<Longrightarrow> scores_bounded (keyword_score_loop s ps rq)"
proof (induction ps arbitrary: s)
  case Nil
  then show ?case by simp
next
  case (Cons p ps)
  from Cons.prems keyword_score_bounds
  have "scores_bounded (update_paper s (paper_id p) (\<lambda>r. r\<lparr>relevance_score := Some (keyword_score rq p)\<rparr>))"
    by (rule scores_bounded_update)
  then show ?case by (simp add: Cons.IH)
qed

lemma similarity_loop_bounded:
  "scores_bounded s \<Longrightarrow> scores_bounded (similarity_loop s ps m sim)"
proof (induction ps arbitrary: s)
  case Nil
  then show ?case by simp
next
  case (Cons p ps)
  show ?case
  proof (cases "m (paper_id p)")
    case None
    with Cons show ?thesis by simp
  next
    case (Some vec)
    from Cons.prems similarity_score_bounds
    have "scores_bounded (update_paper s (paper_id p)
        (\<lambda>r. r\<lparr>relevance_score := Some (similarity_score (sim vec))\<rparr>))"
      by (rule scores_bounded_update)
    with Some show ?thesis by (simp add: Cons.IH)
  qed
qed

lemma relevance_run_bounded:
  "scores_bounded s \<Longrightarrow> relevance_run s rq stored qs = Inr s' \<Longrightarrow> scores_bounded s'"
  by (auto simp: relevance_run_def Let_def keyword_score_loop_bounded similarity_loop_bounded
      split: if_splits sum.splits)


text \<open>
  C6 (as amended). The similarity score and the keyword score lie between 0 and 100 for
  every input. A question whose tokens are disjoint from the tokens of a document's
  title and abstract scores 0. In general the keyword score is
  \<open>min 100 (150 * |question tokens \<inter> document tokens| / max |question tokens| 1)\<close>
  rounded to one decimal place. A relevance run that returns keeps every stored
  relevance score between 0 and 100.
\<close>

theorem relevance_score_bounds:
  "0 \<le> similarity_score sim \<and> similarity_score sim \<le> 100
   \<and> 0 \<le> keyword_score rq p \<and> keyword_score rq p \<le> 100
   \<and> (tokenise rq \<inter> tokenise (paper_text p) = {} \<longrightarrow> keyword_score rq p = 0)
   \<and> keyword_score rq p =
       round1 (min 100 (150 * of_nat (card (tokenise rq \<inter> tokenise (paper_text p)))
                          / of_nat (max (card (tokenise rq)) 1)))
   \<and> (scores_bounded s \<and> relevance_run s rq stored question_similarity = Inr s' \<longrightarrow>
        scores_bounded s')"
  using similarity_score_bounds [of sim] keyword_score_bounds [of rq p]
    keyword_score_disjoint [of rq p] keyword_score_eq [of rq p]
    relevance_run_bounded [of s rq stored question_similarity s']
  by blast

theorem relevance_score_bounds_witness:
  "tokenise ''Quantum gravity in the lab'' \<inter> tokenise (paper_text (included_row ''W1'')) = {}
   \<and> keyword_score ''Quantum gravity in the lab'' (included_row ''W1'') = 0
   \<and> scores_bounded [included_row ''W1'']
   \<and> relevance_run [included_row ''W1''] ''Quantum gravity in the lab'' ([] :: (string \<times> rat list) list)
        (Inl (Exn ''no key''))
      = Inr [(included_row ''W1'')\<lparr>relevance_score := Some 0\<rparr>]
   \<and> scores_bounded [(included_row ''W1'')\<lparr>relevance_score := Some 0\<rparr>]"
proof -
  have h1: "tokenise ''Quantum gravity in the lab'' \<inter> tokenise (paper_text (included_row ''W1'')) = {}"
    by code_simp
  have h2: "scores_bounded [included_row ''W1'']" by code_simp
  have h3: "relevance_run [included_row ''W1''] ''Quantum gravity in the lab''
        ([] :: (string \<times> rat list) list) (Inl (Exn ''no key''))
      = Inr [(included_row ''W1'')\<lparr>relevance_score := Some 0\<rparr>]"
    by code_simp
  from relevance_score_bounds [where rq = "''Quantum gravity in the lab''"
      and p = "included_row ''W1''" and s = "[included_row ''W1'']"
      and stored = "[] :: (string \<times> rat list) list" and question_similarity = "Inl (Exn ''no key'')"
      and s' = "[(included_row ''W1'')\<lparr>relevance_score := Some 0\<rparr>]"] h1 h2 h3
  show ?thesis by blast
qed

text \<open>
  C6 as stated fails: with one of seven question tokens in the document the score is
  21.4, not 150/7.
\<close>

theorem keyword_score_is_rounded:
  "card (tokenise ''alpha beta gamma delta epsilon zeta theta'') = 7
   \<and> card (tokenise ''alpha beta gamma delta epsilon zeta theta''
            \<inter> tokenise (paper_text (parsed ''W1'' None ''Alpha waves'' None))) = 1
   \<and> keyword_score ''alpha beta gamma delta epsilon zeta theta''
        (parsed ''W1'' None ''Alpha waves'' None) = 107 / 5
   \<and> min 100 (150 * 1 / 7) = (150 / 7 :: rat)
   \<and> (107 / 5 :: rat) \<noteq> 150 / 7"
  by code_simp

section \<open>Snowballing (agents/snowballing_agent.py)\<close>

text \<open>The constants of config.py that the agent reads; 0.02 is the rational 2/100.\<close>

definition DEFAULT_TARGET_CORPUS_SIZE :: int where
  "DEFAULT_TARGET_CORPUS_SIZE = 50"

definition DEFAULT_MAX_SNOWBALL_ROUNDS :: int where
  "DEFAULT_MAX_SNOWBALL_ROUNDS = 3"

definition DEFAULT_MIN_YIELD_RATE :: rat where
  "DEFAULT_MIN_YIELD_RATE = 2 / 100"

definition DEFAULT_MAX_CANDIDATES_PER_ROUND :: nat where
  "DEFAULT_MAX_CANDIDATES_PER_ROUND = 2000"

text \<open>
  The keys of the review configuration that the agent reads, \<open>None\<close> for an absent key,
  and the outside world of a run: the two citation lookups, the screening call and the
  completion order of the screening workers, each indexed by the round in which it is
  used. A lookup returns the parsed works or raises.
\<close>

record config =
  max_snowball_rounds :: "int option"
  snowball_direction :: "string option"
  target_corpus_size :: "int option"

record environment =
  get_references :: "nat \<Rightarrow> string \<Rightarrow> exn + paper list"
  get_citing_papers :: "nat \<Rightarrow> string \<Rightarrow> exn + paper list"
  screening_remote :: "nat \<Rightarrow> remote"
  completion_order :: "nat \<Rightarrow> decision_entry list list \<Rightarrow> decision_entry list list"

text \<open>The decimal numeral of the f-string \<^verbatim>\<open>snowball_round_{round_num}\<close>.\<close>

fun str_nat :: "nat \<Rightarrow> string" where
  "str_nat n = (if n < 10 then [''0123456789'' ! n] else str_nat (n div 10) @ [''0123456789'' ! (n mod 10)])"

declare str_nat.simps [simp del]

text \<open>
  The loop over the included papers that collects the candidates: it stops when the
  cap is reached, skips a paper without an OpenAlex id, and logs and skips a lookup
  that raises.
\<close>

fun collect_candidates ::
  "environment \<Rightarrow> nat \<Rightarrow> string \<Rightarrow> store \<Rightarrow> paper list \<Rightarrow> paper list \<Rightarrow> paper list" where
  "collect_candidates env round_num direction s [] candidates = candidates"
| "collect_candidates env round_num direction s (p # included) candidates =
     (if DEFAULT_MAX_CANDIDATES_PER_ROUND \<le> length candidates then candidates
      else if \<not> truthy (openalex_id p)
      then collect_candidates env round_num direction s included candidates
      else
        (let oa_id = (case openalex_id p of Some v \<Rightarrow> v | None \<Rightarrow> []);
             backward =
               (if direction = ''both'' \<or> direction = ''backward''
                then (case get_references env round_num oa_id of
                        Inr refs \<Rightarrow> candidates @ filter (\<lambda>r. \<not> known_id s (paper_id r)) refs
                      | Inl e \<Rightarrow> candidates)
                else candidates);
             forward =
               (if direction = ''both'' \<or> direction = ''forward''
                then (case get_citing_papers env round_num oa_id of
                        Inr citers \<Rightarrow> backward @ filter (\<lambda>r. \<not> known_id s (paper_id r)) citers
                      | Inl e \<Rightarrow> backward)
                else backward)
         in collect_candidates env round_num direction s included forward))"

text \<open>The deduplication of the candidates by id, which also tags them with the round.\<close>

fun unique_candidates :: "store \<Rightarrow> nat \<Rightarrow> string set \<Rightarrow> paper list \<Rightarrow> paper list" where
  "unique_candidates s round_num seen [] = []"
| "unique_candidates s round_num seen (c # candidates) =
     (if paper_id c \<notin> seen \<and> \<not> known_id s (paper_id c)
      then c\<lparr>found_via := Some (''snowball_round_'' @ str_nat round_num)\<rparr>
             # unique_candidates s round_num (insert (paper_id c) seen) candidates
      else unique_candidates s round_num seen candidates)"

text \<open>
  The stopping criteria after the screening of a round. \<^verbatim>\<open>target_size * 1.5\<close> is three
  halves of the target size.
\<close>

datatype stop_reason = No_new_papers | Low_yield | Target_exceeded

definition stop_reasons :: "int \<Rightarrow> rat \<Rightarrow> nat \<Rightarrow> int \<Rightarrow> stop_reason list" where
  "stop_reasons new_included yield_rate included target_size =
     (if new_included = 0 then [No_new_papers] else [])
     @ (if yield_rate < DEFAULT_MIN_YIELD_RATE then [Low_yield] else [])
     @ (if of_int target_size * (3 / 2) \<le> (of_nat included :: rat) then [Target_exceeded] else [])"

text \<open>
  The loop \<^verbatim>\<open>for round_num in range(1, max_rounds + 1)\<close>. Besides the store and the total
  that \<^verbatim>\<open>run\<close> returns, the model returns one report per round entered: the round found no
  included paper, or no new candidate, or it screened \<open>c\<close> candidates with \<open>n\<close> newly
  included papers and \<open>included\<close> included papers afterwards.
\<close>

datatype round_report = No_included | No_candidates | Screened nat int nat

fun snowball_rounds ::
  "environment \<Rightarrow> string \<Rightarrow> int \<Rightarrow> nat list \<Rightarrow> store \<Rightarrow> int \<Rightarrow> store \<times> int \<times> round_report list" where
  "snowball_rounds env direction target_size [] s total_new_included = (s, total_new_included, [])"
| "snowball_rounds env direction target_size (round_num # later) s total_new_included =
     (let included = get_papers s (Some ''INCLUDED'') None
      in if included = [] then (s, total_new_included, [No_included])
         else
           (let candidates = collect_candidates env round_num direction s included [];
                unique = unique_candidates s round_num {} candidates
            in if unique = [] then (s, total_new_included, [No_candidates])
               else
                 (let s1 = fst (upsert_papers s unique);
                      pre = count_papers_included s1;
                      s2 = fst (run_pass1 s1 (screening_remote env round_num)
                                  (completion_order env round_num));
                      post = count_papers_included s2;
                      new_included = int post - int pre;
                      yield_rate = of_int new_included / of_nat (length unique);
                      total = total_new_included + new_included
                  in if stop_reasons new_included yield_rate post target_size \<noteq> []
                     then (s2, total, [Screened (length unique) new_included post])
                     else (case snowball_rounds env direction target_size later s2 total of
                             (s3, total3, reports) \<Rightarrow>
                               (s3, total3, Screened (length unique) new_included post # reports)))))"

text \<open>\<^verbatim>\<open>SnowballingAgent.run\<close> with the defaults of \<^verbatim>\<open>cfg.get\<close>.\<close>

definition max_rounds :: "config \<Rightarrow> int" where
  "max_rounds cfg = (case max_snowball_rounds cfg of None \<Rightarrow> DEFAULT_MAX_SNOWBALL_ROUNDS | Some v \<Rightarrow> v)"

definition target_size :: "config \<Rightarrow> int" where
  "target_size cfg = (case target_corpus_size cfg of None \<Rightarrow> DEFAULT_TARGET_CORPUS_SIZE | Some v \<Rightarrow> v)"

definition direction :: "config \<Rightarrow> string" where
  "direction cfg = (case snowball_direction cfg of None \<Rightarrow> ''both'' | Some v \<Rightarrow> v)"

definition snowball_run :: "environment \<Rightarrow> config \<Rightarrow> store \<Rightarrow> store \<times> int \<times> round_report list" where
  "snowball_run env cfg s =
     snowball_rounds env (direction cfg) (target_size cfg) [1..<nat (max_rounds cfg + 1)] s 0"

subsection \<open>Examples\<close>

definition seed :: paper where
  "seed = (new_row (parsed ''W1'' None ''Seed'' (Some ''W1'')))
     \<lparr>screening_pass1 := Some ''INCLUDE'', final_status := Some ''INCLUDED''\<rparr>"

definition example_environment :: environment where
  "example_environment =
     \<lparr>get_references = (\<lambda>n oa. Inr [parsed ''W2'' None ''Cited'' (Some ''W2'')]),
      get_citing_papers = (\<lambda>n oa. Inr [parsed ''W2'' None ''Cited'' (Some ''W2''), parsed ''W1'' None ''Seed'' (Some ''W1'')]),
      screening_remote = (\<lambda>n batch. Inr (Some [entry (Some ''W2'') (Some ''INCLUDE'')])),
      completion_order = (\<lambda>n outcomes. outcomes)\<rparr>"

definition example_config :: config where
  "example_config = \<lparr>max_snowball_rounds = Some 3, snowball_direction = Some ''both'',
     target_corpus_size = Some 50\<rparr>"



subsection \<open>The screening of a round includes nothing\<close>

text \<open>
  \<^verbatim>\<open>run_pass1\<close> writes the final status EXCLUDED only, and the loop does not call
  \<^verbatim>\<open>finalize_included\<close>; so the count of included rows cannot grow between the two calls
  of \<^verbatim>\<open>count_papers\<close>.
\<close>

lemma final_status_on_row:
  "final_status (on_row d r) = Some ''INCLUDED'' \<Longrightarrow> final_status r = Some ''INCLUDED''"
  by (auto simp: on_row_def entry_step_def pass1_fields_def split: if_splits)

lemma final_status_fold_on_row:
  "final_status (fold on_row ds r) = Some ''INCLUDED'' \<Longrightarrow> final_status r = Some ''INCLUDED''"
proof (induction ds arbitrary: r)
  case Nil
  then show ?case by simp
next
  case (Cons d ds)
  from Cons.prems have "final_status (fold on_row ds (on_row d r)) = Some ''INCLUDED''" by simp
  then have "final_status (on_row d r) = Some ''INCLUDED''" by (rule Cons.IH)
  then show ?case by (rule final_status_on_row)
qed

lemma length_filter_map_le:
  "(\<And>x. x \<in> set xs \<Longrightarrow> P (f x) \<Longrightarrow> Q x) \<Longrightarrow> length (filter P (map f xs)) \<le> length (filter Q xs)"
proof (induction xs)
  case Nil
  show ?case by simp
next
  case (Cons x xs)
  then have "length (filter P (map f xs)) \<le> length (filter Q xs)" by simp
  moreover from Cons.prems have "P (f x) \<Longrightarrow> Q x" by simp
  ultimately show ?case by auto
qed

lemma run_pass1_includes_nothing:
  "count_papers_included (fst (run_pass1 s llm ac)) \<le> count_papers_included s"
proof (cases "unscreened s = []")
  case True
  then show ?thesis by (simp add: fst_run_pass1)
next
  case False
  then have "fst (run_pass1 s llm ac) = map (fold on_row (all_decisions s llm ac)) s"
    by (simp add: fst_run_pass1 commit_as_map)
  then show ?thesis
    unfolding count_papers_included_def
    by (simp only:) (rule length_filter_map_le, rule final_status_fold_on_row)
qed

lemma stop_reasons_nonpositive:
  assumes "n \<le> 0" "0 < c"
  shows "stop_reasons n (of_int n / of_nat c) included target \<noteq> []"
proof (cases "n = 0")
  case True
  then show ?thesis by (simp add: stop_reasons_def)
next
  case False
  with assms(1) have "n < 0" by simp
  with assms(2) have "(of_int n / of_nat c :: rat) < 0"
    by (simp add: divide_neg_pos)
  moreover have "0 < DEFAULT_MIN_YIELD_RATE"
    by (simp add: DEFAULT_MIN_YIELD_RATE_def)
  ultimately have "(of_int n / of_nat c :: rat) < DEFAULT_MIN_YIELD_RATE"
    by (rule less_trans)
  then show ?thesis by (simp add: stop_reasons_def)
qed

text \<open>The candidates, the store after the screening and the count difference of a round.\<close>

definition round_candidates :: "environment \<Rightarrow> nat \<Rightarrow> string \<Rightarrow> store \<Rightarrow> paper list" where
  "round_candidates env round_num d s =
     unique_candidates s round_num {}
       (collect_candidates env round_num d s (get_papers s (Some ''INCLUDED'') None) [])"

definition screened_store :: "environment \<Rightarrow> nat \<Rightarrow> string \<Rightarrow> store \<Rightarrow> store" where
  "screened_store env round_num d s =
     fst (run_pass1 (fst (upsert_papers s (round_candidates env round_num d s)))
            (screening_remote env round_num) (completion_order env round_num))"

definition new_included :: "environment \<Rightarrow> nat \<Rightarrow> string \<Rightarrow> store \<Rightarrow> int" where
  "new_included env round_num d s =
     int (count_papers_included (screened_store env round_num d s))
     - int (count_papers_included (fst (upsert_papers s (round_candidates env round_num d s))))"

lemma new_included_nonpositive: "new_included env round_num d s \<le> 0"
  using run_pass1_includes_nothing
    [of "fst (upsert_papers s (round_candidates env round_num d s))"
        "screening_remote env round_num" "completion_order env round_num"]
  by (simp add: new_included_def screened_store_def)

lemma snowball_rounds_Cons:
  "snowball_rounds env d t (round_num # later) s acc =
     (if get_papers s (Some ''INCLUDED'') None = [] then (s, acc, [No_included])
      else if round_candidates env round_num d s = [] then (s, acc, [No_candidates])
      else (screened_store env round_num d s, acc + new_included env round_num d s,
            [Screened (length (round_candidates env round_num d s))
               (new_included env round_num d s)
               (count_papers_included (screened_store env round_num d s))]))"
proof -
  let ?rc = "round_candidates env round_num d s"
  let ?ni = "new_included env round_num d s"
  let ?s2 = "screened_store env round_num d s"
  let ?one = "(?s2, acc + ?ni, [Screened (length ?rc) ?ni (count_papers_included ?s2)])"
  have eq: "snowball_rounds env d t (round_num # later) s acc =
     (if get_papers s (Some ''INCLUDED'') None = [] then (s, acc, [No_included])
      else if ?rc = [] then (s, acc, [No_candidates])
      else if stop_reasons ?ni (of_int ?ni / of_nat (length ?rc)) (count_papers_included ?s2) t \<noteq> []
      then ?one
      else (case snowball_rounds env d t later ?s2 (acc + ?ni) of
              (s3, total3, reports) \<Rightarrow>
                (s3, total3, Screened (length ?rc) ?ni (count_papers_included ?s2) # reports)))"
    by (simp only: snowball_rounds.simps Let_def round_candidates_def screened_store_def
        new_included_def)
  have stop: "stop_reasons ?ni (of_int ?ni / of_nat (length ?rc)) (count_papers_included ?s2) t \<noteq> []"
    if "?rc \<noteq> []"
    using that by (intro stop_reasons_nonpositive new_included_nonpositive) simp
  show ?thesis
  proof (cases "?rc = []")
    case True
    then show ?thesis by (simp only: eq if_True simp_thms)
  next
    case False
    from stop [OF False] False show ?thesis by (simp only: eq if_True if_False simp_thms)
  qed
qed


lemma snowball_rounds_reports:
  assumes "snowball_rounds env d t rounds s acc = (s', total', reports)"
  shows "length reports \<le> 1 \<and> length reports \<le> length rounds
    \<and> (rounds \<noteq> [] \<longrightarrow> reports \<noteq> [])
    \<and> (\<forall>c n included. Screened c n included \<in> set reports \<longrightarrow> n \<le> 0 \<and> 0 < c)
    \<and> total' \<le> acc"
proof (cases rounds)
  case Nil
  with assms show ?thesis by simp
next
  case (Cons round_num later)
  have n: "new_included env round_num d s \<le> 0" by (rule new_included_nonpositive)
  from assms have
    "(if get_papers s (Some ''INCLUDED'') None = [] then (s, acc, [No_included])
      else if round_candidates env round_num d s = [] then (s, acc, [No_candidates])
      else (screened_store env round_num d s, acc + new_included env round_num d s,
            [Screened (length (round_candidates env round_num d s))
               (new_included env round_num d s)
               (count_papers_included (screened_store env round_num d s))]))
     = (s', total', reports)"
    by (simp only: Cons snowball_rounds_Cons)
  with n show ?thesis
    by (auto simp: Cons split: if_splits)
qed


lemma get_papers_included_empty:
  "get_papers s (Some ''INCLUDED'') None = [] \<longleftrightarrow> (\<forall>r \<in> set s. final_status r \<noteq> Some ''INCLUDED'')"
proof -
  have "set (get_papers s (Some ''INCLUDED'') None) = {r \<in> set s. final_status r = Some ''INCLUDED''}"
    by (auto simp: get_papers_def set_order_by_citations)
  moreover have "get_papers s (Some ''INCLUDED'') None = []
      \<longleftrightarrow> set (get_papers s (Some ''INCLUDED'') None) = {}"
    by simp
  ultimately show ?thesis by (simp only:) blast
qed



lemma snowball_run_reports:
  assumes "snowball_run env cfg s = (s', total', reports)"
  shows "length reports \<le> 1 \<and> length reports \<le> nat (max_rounds cfg)
    \<and> (1 \<le> max_rounds cfg \<longrightarrow> reports \<noteq> [])
    \<and> (\<forall>c n included. Screened c n included \<in> set reports \<longrightarrow> n \<le> 0 \<and> 0 < c)
    \<and> total' \<le> 0"
proof -
  from assms have r: "snowball_rounds env (direction cfg) (target_size cfg)
      [1..<nat (max_rounds cfg + 1)] s 0 = (s', total', reports)"
    by (simp add: snowball_run_def)
  have "1 \<le> max_rounds cfg \<Longrightarrow> [1..<nat (max_rounds cfg + 1)] \<noteq> []" by simp
  moreover have "length [1..<nat (max_rounds cfg + 1)] = nat (max_rounds cfg)" by simp
  ultimately show ?thesis using snowball_rounds_reports [OF r] by auto
qed

lemma snowball_run_first_round:
  assumes "1 \<le> max_rounds cfg"
  shows "snowball_run env cfg s =
     (if get_papers s (Some ''INCLUDED'') None = [] then (s, 0, [No_included])
      else if round_candidates env 1 (direction cfg) s = [] then (s, 0, [No_candidates])
      else (screened_store env 1 (direction cfg) s, 0 + new_included env 1 (direction cfg) s,
            [Screened (length (round_candidates env 1 (direction cfg) s))
               (new_included env 1 (direction cfg) s)
               (count_papers_included (screened_store env 1 (direction cfg) s))]))"
proof -
  from assms have "\<exists>later. [1..<nat (max_rounds cfg + 1)] = 1 # later"
    by (simp add: upt_conv_Cons)
  then obtain later where "[1..<nat (max_rounds cfg + 1)] = 1 # later" ..
  then show ?thesis
    by (simp only: snowball_run_def snowball_rounds_Cons)
qed



text \<open>
  C9 (as amended). With \<open>max_rounds\<close> at least 1 and a document with final status INCLUDED
  in the store, the controller enters the first round and gets past its test for
  included documents; and it never performs more than \<open>max_rounds\<close> rounds. For every
  configuration the number of rounds is at most \<open>max_rounds\<close> cut off at 0.
\<close>

theorem snowball_round_count:
  "(1 \<le> max_rounds cfg \<and> (\<exists>r \<in> set s. final_status r = Some ''INCLUDED'')
      \<and> snowball_run env cfg s = (s', total', reports) \<longrightarrow>
      1 \<le> length reports \<and> hd reports \<noteq> No_included \<and> int (length reports) \<le> max_rounds cfg)
   \<and> (snowball_run env cfg s = (s', total', reports) \<longrightarrow> length reports \<le> nat (max_rounds cfg))"
proof -
  have a: "1 \<le> length reports \<and> hd reports \<noteq> No_included \<and> int (length reports) \<le> max_rounds cfg"
    if m: "1 \<le> max_rounds cfg" and inc: "\<exists>r \<in> set s. final_status r = Some ''INCLUDED''"
      and run: "snowball_run env cfg s = (s', total', reports)"
  proof -
    from inc have "get_papers s (Some ''INCLUDED'') None \<noteq> []"
      by (simp add: get_papers_included_empty)
    with run snowball_run_first_round [OF m, of env s]
    have "hd reports \<noteq> No_included" "1 \<le> length reports"
      by (auto split: if_splits)
    moreover from snowball_run_reports [OF run] m have "int (length reports) \<le> max_rounds cfg"
      by simp
    ultimately show ?thesis by simp
  qed
  have b: "length reports \<le> nat (max_rounds cfg)"
    if "snowball_run env cfg s = (s', total', reports)"
    using snowball_run_reports [OF that] by simp
  from a b show ?thesis by blast
qed

theorem snowball_round_count_witness:
  "1 \<le> max_rounds example_config
   \<and> final_status seed = Some ''INCLUDED''
   \<and> snowball_run example_environment example_config [seed]
     = (fst (snowball_run example_environment example_config [seed]), 0, [Screened 1 0 1])
   \<and> hd [Screened 1 0 1] \<noteq> No_included"
proof -
  have h1: "1 \<le> max_rounds example_config" by (simp add: max_rounds_def example_config_def)
  have h2: "final_status seed = Some ''INCLUDED''" by (simp add: seed_def)
  then have h3: "\<exists>r \<in> set [seed]. final_status r = Some ''INCLUDED''" by simp
  have h4: "snowball_run example_environment example_config [seed]
     = (fst (snowball_run example_environment example_config [seed]), 0, [Screened 1 0 1])"
    by code_simp
  from snowball_round_count [where cfg = example_config and s = "[seed]"
      and env = example_environment
      and s' = "fst (snowball_run example_environment example_config [seed])"
      and total' = 0 and reports = "[Screened 1 0 1]"] h1 h2 h3 h4
  show ?thesis by blast
qed

text \<open>
  C9 as stated fails for the configuration with \<open>max_rounds = 0\<close>, which the review form
  writes when snowballing is switched off: no round is performed although a document
  is included.
\<close>

theorem snowball_no_round:
  "final_status seed = Some ''INCLUDED''
   \<and> max_rounds (example_config\<lparr>max_snowball_rounds := Some 0\<rparr>) = 0
   \<and> snowball_run example_environment (example_config\<lparr>max_snowball_rounds := Some 0\<rparr>) [seed]
     = ([seed], 0, [])"
  by code_simp

end
